theory Spec2Isabelle
  imports Complex_Main "HOL-Library.Multiset"
begin

section \<open>Tours, predecessor view and the positional state encoder\<close>

text \<open>
  Source: \<^verbatim>\<open>src/nets/graph_layers.py\<close>.  A tour over \<open>2n+1\<close> nodes is the successor
  array \<open>solution\<close>: \<open>solution[i] = j\<close> means that node \<open>j\<close> follows node \<open>i\<close>.  Node \<open>0\<close>
  is the depot, \<open>1..n\<close> are pickups, \<open>n+1..2n\<close> their deliveries.  All batched tensor
  operations of \<^verbatim>\<open>EmbeddingNet._position_embedding\<close> act on every instance on its own, so
  the walk is modelled for one instance (one row of the batch); node ids are natural
  numbers.  Exceptions raised by tensor operations are values of \<open>error\<close>.
\<close>

datatype error = IndexError | RuntimeError | AssertionError

subsection \<open>\<^verbatim>\<open>solution.argsort()\<close>\<close>

text \<open>
  \<^verbatim>\<open>pre = solution.argsort()\<close>: the indices that sort the row in ascending order.  The
  model sorts the (value, index) pairs by value.  \<^verbatim>\<open>torch.argsort\<close> does not promise a
  stable sort, the model's sort is stable; the two agree whenever the values are distinct,
  which is what every statement below assumes.
\<close>

definition argsort :: "nat list \<Rightarrow> nat list" where
  "argsort xs = map snd (sort_key fst (zip xs [0..<length xs]))"

text \<open>A row is a permutation of the node ids \<open>0..<length\<close>.\<close>

definition is_permutation :: "nat list \<Rightarrow> bool" where
  "is_permutation xs = (distinct xs \<and> (\<forall>v\<in>set xs. v < length xs))"

text \<open>
  The nodes in visiting order, starting from the depot's successor:
  \<open>solution[0]\<close>, \<open>solution[solution[0]]\<close>, ... (\<open>length solution\<close> of them).
\<close>

definition node_at :: "nat list \<Rightarrow> nat \<Rightarrow> nat" where
  "node_at solution k = ((\<lambda>v. solution ! v) ^^ k) 0"

definition tour_order :: "nat list \<Rightarrow> nat list" where
  "tour_order solution = map (\<lambda>i. node_at solution (Suc i)) [0..<length solution]"

text \<open>
  A valid tour for \<open>n\<close> request pairs: a permutation of \<open>2n+1\<close> node ids that is one single
  cycle, that is, the walk from the depot reaches every node.
\<close>

definition valid_tour :: "nat \<Rightarrow> nat list \<Rightarrow> bool" where
  "valid_tour n solution =
     (length solution = 2 * n + 1 \<and> is_permutation solution \<and>
      (\<forall>v\<in>set [0..<2 * n + 1]. v \<in> set (tour_order solution)))"

subsection \<open>\<^verbatim>\<open>stacks.topk(2)[1]\<close>\<close>

text \<open>
  \<^verbatim>\<open>topk(2)[1]\<close> returns the indices of the two largest entries, the larger first.  Which
  index is returned among equal entries is not specified by torch (the source's comment:
  "topk is not stable sorting"), so the simulation takes the selection function as a
  parameter \<open>tk\<close>; \<open>is_top2\<close> says what every admissible result satisfies, and \<open>topk2\<close> is
  one executable choice (lowest index among equal entries).
\<close>

definition is_top2 :: "real list \<Rightarrow> nat \<times> nat \<Rightarrow> bool" where
  "is_top2 xs ab =
     (case ab of (a, b) \<Rightarrow>
        a < length xs \<and> b < length xs \<and> a \<noteq> b \<and> xs ! b \<le> xs ! a \<and>
        (\<forall>j<length xs. j \<noteq> a \<longrightarrow> xs ! j \<le> xs ! b))"

definition admissible_topk :: "(real list \<Rightarrow> nat \<times> nat) \<Rightarrow> bool" where
  "admissible_topk tk = (\<forall>xs. 2 \<le> length xs \<longrightarrow> is_top2 xs (tk xs))"

fun first_max_index :: "real list \<Rightarrow> nat list \<Rightarrow> nat" where
  "first_max_index xs [] = 0"
| "first_max_index xs [j] = j"
| "first_max_index xs (j # k # js) =
     (let r = first_max_index xs (k # js) in if xs ! j < xs ! r then r else j)"

definition topk2 :: "real list \<Rightarrow> nat \<times> nat" where
  "topk2 xs =
     (let a = first_max_index xs [0..<length xs];
          b = first_max_index xs (filter (\<lambda>j. j \<noteq> a) [0..<length xs])
      in (a, b))"

subsection \<open>\<^verbatim>\<open>EmbeddingNet._position_embedding\<close>\<close>

text \<open>
  The loop state: \<open>pre\<close>, the float tensor \<open>visit_index\<close> (it only ever holds the integers
  \<open>0..seq_length\<close>), the float tensor \<open>stacks\<close> (one slot per pickup id plus the depot slot,
  holding \<open>-0.01\<close>, \<open>0\<close> or a step number) and \<open>top2\<close>.
\<close>

record pos_state =
  pre :: nat
  visit_index :: "nat list"
  stacks :: "real list"
  top2 :: "(nat \<times> nat) list"

text \<open>
  One iteration \<open>i\<close> of \<^verbatim>\<open>for i in range(seq_length)\<close>.  Reading or writing outside a
  tensor raises \<open>IndexError\<close>; \<^verbatim>\<open>topk(2)\<close> on fewer than two slots raises \<open>RuntimeError\<close>.
\<close>

definition position_step ::
  "(real list \<Rightarrow> nat \<times> nat) \<Rightarrow> bool \<Rightarrow> nat list \<Rightarrow> nat \<Rightarrow> pos_state \<Rightarrow> error + pos_state" where
  "position_step tk calc_stacks solution i s =
     (let seq_length = length solution; half_size = seq_length div 2 in
      if seq_length \<le> pre s then Inl IndexError
      else
        let current_nodes = solution ! pre s in
        if length (visit_index s) \<le> current_nodes then Inl IndexError
        else
          let s1 = s\<lparr>visit_index := (visit_index s)[current_nodes := i + 1],
                     pre := current_nodes\<rparr> in
          if \<not> calc_stacks then Inr s1
          else
            let index1 = (current_nodes \<le> half_size \<and> 0 < current_nodes);
                index2 = (half_size < current_nodes \<and> 0 < current_nodes) in
            if index1 \<and> length (stacks s1) \<le> current_nodes then Inl IndexError
            else if index2 \<and> length (stacks s1) \<le> current_nodes - half_size then Inl IndexError
            else
              let st1 = (if index1 then (stacks s1)[current_nodes := real (i + 1)]
                         else stacks s1);
                  st2 = (if index2 then st1[current_nodes - half_size := - (1 / 100)]
                         else st1) in
              if length st2 < 2 then Inl RuntimeError
              else if length (top2 s1) \<le> current_nodes then Inl IndexError
              else Inr (s1\<lparr>stacks := st2, top2 := (top2 s1)[current_nodes := tk st2]\<rparr>))"

fun position_loop ::
  "(real list \<Rightarrow> nat \<times> nat) \<Rightarrow> bool \<Rightarrow> nat list \<Rightarrow> nat list \<Rightarrow> pos_state \<Rightarrow> error + pos_state" where
  "position_loop tk calc_stacks solution [] s = Inr s"
| "position_loop tk calc_stacks solution (i # is) s =
     (case position_step tk calc_stacks solution i s of
        Inl e \<Rightarrow> Inl e
      | Inr s' \<Rightarrow> position_loop tk calc_stacks solution is s')"

definition initial_state :: "nat list \<Rightarrow> pos_state" where
  "initial_state solution =
     (let seq_length = length solution; half_size = seq_length div 2 in
      \<lparr>pre = 0,
       visit_index = replicate seq_length 0,
       stacks = (replicate (half_size + 1) (- (1 / 100)))[0 := 0],
       top2 = replicate seq_length (0, 0)\<rparr>)"

text \<open>
  The whole function for one instance.  \<open>pattern\<close> is the fixed table \<^verbatim>\<open>self.pattern\<close> with
  one row per position; \<^verbatim>\<open>expand\<close> raises unless it has \<open>seq_length\<close> rows (or a single
  row, which is broadcast).  The result is the gathered embedding rows, the returned
  visit index \<^verbatim>\<open>(visit_index % seq_length).long()\<close> and \<open>top2\<close> (\<open>None\<close> without
  \<open>calc_stacks\<close>).
\<close>

definition position_embedding ::
  "(real list \<Rightarrow> nat \<times> nat) \<Rightarrow> 'e list \<Rightarrow> nat list \<Rightarrow> bool \<Rightarrow>
     error + ('e list \<times> nat list \<times> (nat \<times> nat) list option)" where
  "position_embedding tk pattern solution calc_stacks =
     (let seq_length = length solution in
      if length pattern \<noteq> seq_length \<and> length pattern \<noteq> 1 then Inl RuntimeError
      else
        let position_emb_new =
              (if length pattern = seq_length then pattern else replicate seq_length (hd pattern)) in
        case position_loop tk calc_stacks solution [0..<seq_length] (initial_state solution) of
          Inl e \<Rightarrow> Inl e
        | Inr s \<Rightarrow>
            let index = map (\<lambda>v. v mod seq_length) (visit_index s) in
            Inr (map (\<lambda>v. position_emb_new ! v) index, index,
                 if calc_stacks then Some (top2 s) else None))"

text \<open>
  For stating what \<open>top2\<close> means: the pickups that are open after visiting the nodes \<open>vs\<close> in
  order, most recently opened first.  Visiting pickup \<open>v\<close> opens it, visiting delivery
  \<open>v\<close> closes pickup \<open>v - n\<close>, the depot changes nothing.
\<close>

definition visit_node :: "nat \<Rightarrow> nat list \<Rightarrow> nat \<Rightarrow> nat list" where
  "visit_node n opens v =
     (if 0 < v \<and> v \<le> n then v # filter (\<lambda>p. p \<noteq> v) opens
      else if n < v then filter (\<lambda>p. p \<noteq> v - n) opens
      else opens)"

definition open_pickups :: "nat \<Rightarrow> nat list \<Rightarrow> nat list" where
  "open_pickups n vs = foldl (visit_node n) [] vs"

text \<open>
  What a \<open>top2\<close> entry \<open>(a, b)\<close> says when \<open>ops\<close> are the open pickups (most recent
  first) after the node's visit: slot \<open>0\<close> occurs in the entry exactly when fewer than two
  pickups are open, and the first component is the most recently opened open pickup if
  there is one.
\<close>

definition top2_entry_ok :: "nat list \<Rightarrow> nat \<times> nat \<Rightarrow> bool" where
  "top2_entry_ok ops ab =
     (case ab of (a, b) \<Rightarrow>
        ((a = 0 \<or> b = 0) = (length ops < 2)) \<and> (ops \<noteq> [] \<longrightarrow> a = hd ops))"

subsection \<open>Invariants of the simulation\<close>

text \<open>
  \<open>stack_update\<close> is the effect of one iteration on \<open>stacks\<close>.  \<open>stack_inv\<close> relates the
  array to the open pickups after \<open>k\<close> steps: the depot slot is \<open>0\<close>, an open pickup's slot
  holds the (positive) step at which it was opened, later openings hold larger steps, and
  every other pickup slot holds \<open>-0.01\<close>.  \<open>vis_inv\<close> and \<open>stk_inv\<close> are the loop invariants
  after \<open>k\<close> iterations.
\<close>

definition stack_update :: "nat \<Rightarrow> nat \<Rightarrow> real list \<Rightarrow> nat \<Rightarrow> real list" where
  "stack_update n k st c =
     (if 0 < c \<and> c \<le> n then st[c := real (k + 1)]
      else if n < c then st[c - n := - (1 / 100)] else st)"

definition stack_inv :: "nat \<Rightarrow> nat \<Rightarrow> real list \<Rightarrow> nat list \<Rightarrow> bool" where
  "stack_inv n k st ops =
     (length st = n + 1 \<and> st ! 0 = 0 \<and> distinct ops \<and>
      (\<forall>p\<in>set ops. 1 \<le> p \<and> p \<le> n \<and> 0 < st ! p \<and> st ! p \<le> real k) \<and>
      (\<forall>p. 1 \<le> p \<and> p \<le> n \<and> p \<notin> set ops \<longrightarrow> st ! p = - (1 / 100)) \<and>
      sorted_wrt (\<lambda>p q. st ! q < st ! p) ops)"

definition vis_inv :: "nat \<Rightarrow> nat list \<Rightarrow> nat \<Rightarrow> pos_state \<Rightarrow> bool" where
  "vis_inv n sol k s =
     (pre s = node_at sol k \<and> length (visit_index s) = 2 * n + 1 \<and>
      length (stacks s) = n + 1 \<and> length (top2 s) = 2 * n + 1 \<and>
      (\<forall>j<k. visit_index s ! node_at sol (Suc j) = Suc j))"

definition stk_inv :: "nat \<Rightarrow> nat list \<Rightarrow> nat \<Rightarrow> pos_state \<Rightarrow> bool" where
  "stk_inv n sol k s =
     (stack_inv n k (stacks s) (open_pickups n (take k (tour_order sol))) \<and>
      (\<forall>j<k. top2_entry_ok (open_pickups n (take (Suc j) (tour_order sol)))
                (top2 s ! node_at sol (Suc j))))"

section \<open>The decoder step: \<^verbatim>\<open>NNSDecoder.forward\<close>\<close>

text \<open>
  The step takes the batch of \<open>batch_size\<close> instances together.  The learned networks
  (\<^verbatim>\<open>compater_removal\<close>, \<^verbatim>\<open>compater_reinsertion\<close>) and the environment's
  \<^verbatim>\<open>get_swap_mask\<close> are inputs of the model: arbitrary functions, so that everything proved
  holds for all weights, embeddings and masks.  The random numbers drawn by
  \<^verbatim>\<open>torch.rand\<close> and \<^verbatim>\<open>multinomial\<close> are inputs too.
\<close>

subsection \<open>Tensors, shapes and \<^verbatim>\<open>squeeze\<close>\<close>

text \<open>
  A tensor is its shape and its contiguous storage, read by the row-major offset.
  \<^verbatim>\<open>t.squeeze()\<close> drops every dimension of size one and leaves the storage alone.
\<close>

record 'a tensor =
  shape :: "nat list"
  flat :: "nat \<Rightarrow> 'a"

definition numel :: "'a tensor \<Rightarrow> nat" where
  "numel t = prod_list (shape t)"

definition to_list :: "'a tensor \<Rightarrow> 'a list" where
  "to_list t = map (flat t) [0..<numel t]"

definition squeeze :: "'a tensor \<Rightarrow> 'a tensor" where
  "squeeze t = t\<lparr>shape := filter (\<lambda>d. d \<noteq> 1) (shape t)\<rparr>"

definition tensor2 :: "nat \<Rightarrow> nat \<Rightarrow> (nat \<Rightarrow> nat \<Rightarrow> 'a) \<Rightarrow> 'a tensor" where
  "tensor2 B k f = \<lparr>shape = [B, k], flat = (\<lambda>i. f (i div k) (i mod k))\<rparr>"

definition tensor3 :: "nat \<Rightarrow> nat \<Rightarrow> nat \<Rightarrow> (nat \<Rightarrow> nat \<Rightarrow> nat \<Rightarrow> 'a) \<Rightarrow> 'a tensor" where
  "tensor3 B m k f =
     \<lparr>shape = [B, m, k], flat = (\<lambda>i. f (i div (m * k)) ((i div k) mod m) (i mod k))\<rparr>"

definition tensor_map :: "('a \<Rightarrow> 'b) \<Rightarrow> 'a tensor \<Rightarrow> 'b tensor" where
  "tensor_map g t = \<lparr>shape = shape t, flat = (\<lambda>i. g (flat t i))\<rparr>"

text \<open>The \<open>b\<close>-th block of \<open>k\<close> consecutive elements: row \<open>b\<close> of a tensor whose last
  dimension is \<open>k\<close>.\<close>

definition row_at :: "'a tensor \<Rightarrow> nat \<Rightarrow> nat \<Rightarrow> 'a list" where
  "row_at t k b = map (\<lambda>j. flat t (b * k + j)) [0..<k]"

text \<open>An operation along \<^verbatim>\<open>dim=-1\<close>; a tensor without dimensions is one row of one element.\<close>

definition along_last :: "(real list \<Rightarrow> real list) \<Rightarrow> real tensor \<Rightarrow> real tensor" where
  "along_last g t =
     (let k = (if shape t = [] then 1 else last (shape t))
      in t\<lparr>flat := (\<lambda>i. g (row_at t k (i div k)) ! (i mod k))\<rparr>)"

subsection \<open>Errors in sequence\<close>

definition pbind :: "error + 'a \<Rightarrow> ('a \<Rightarrow> error + 'b) \<Rightarrow> error + 'b" where
  "pbind r f = (case r of Inl e \<Rightarrow> Inl e | Inr x \<Rightarrow> f x)"

fun collect :: "(error + 'a) list \<Rightarrow> error + 'a list" where
  "collect [] = Inr []"
| "collect (r # rs) =
     (case r of Inl e \<Rightarrow> Inl e
      | Inr x \<Rightarrow> (case collect rs of Inl e \<Rightarrow> Inl e | Inr xs \<Rightarrow> Inr (x # xs)))"

subsection \<open>Softmax in float32\<close>

text \<open>
  The tables are float32 tensors.  The model computes in the reals and writes out the one
  rounding effect that the masking with \<^verbatim>\<open>-1e20\<close> relies on: \<^verbatim>\<open>exp\<close> underflows to exactly
  \<open>0\<close> far below the smallest positive float32 \<open>2^-149\<close>, which is larger than \<open>e^-104\<close>.
  \<^verbatim>\<open>F.softmax\<close> and \<^verbatim>\<open>F.log_softmax\<close> subtract the row maximum before exponentiating.
\<close>

definition exp32 :: "real \<Rightarrow> real" where
  "exp32 x = (if x < - 104 then 0 else exp x)"

definition max_list :: "real list \<Rightarrow> real" where
  "max_list xs = fold max xs (hd xs)"

definition softmax :: "real list \<Rightarrow> real list" where
  "softmax xs =
     (let mx = max_list xs; es = map (\<lambda>x. exp32 (x - mx)) xs
      in map (\<lambda>e. e / sum_list es) es)"

definition log_softmax :: "real list \<Rightarrow> real list" where
  "log_softmax xs =
     (let mx = max_list xs; es = map (\<lambda>x. exp32 (x - mx)) xs
      in map (\<lambda>x. x - mx - ln (sum_list es)) xs)"

definition masked_logit :: real where
  "masked_logit = - (10 ^ 20)"

text \<open>\<^verbatim>\<open>Categorical(probs).entropy()\<close>: a zero probability contributes zero.\<close>

definition entropy_of :: "real list \<Rightarrow> real" where
  "entropy_of probs = - (\<Sum>p\<leftarrow>probs. if p = 0 then 0 else p * ln p)"

subsection \<open>Sampling and argmax\<close>

text \<open>
  \<^verbatim>\<open>probs.multinomial(1)\<close> draws index \<open>i\<close> with probability \<open>probs[i] / sum(probs)\<close>.  The
  model makes the draw explicit: \<open>u\<close> is a uniform random number in \<open>[0, 1)\<close> and the sample
  is the index whose interval of the cumulative weights holds \<open>u * sum(probs)\<close>.
  \<^verbatim>\<open>multinomial\<close> raises on a negative weight or a row whose weights sum to zero.
\<close>

fun inverse_cdf :: "real list \<Rightarrow> real \<Rightarrow> nat" where
  "inverse_cdf [] t = 0"
| "inverse_cdf (p # ps) t = (if t < p \<or> ps = [] then 0 else Suc (inverse_cdf ps (t - p)))"

definition multinomial :: "real list \<Rightarrow> real \<Rightarrow> error + nat" where
  "multinomial probs u =
     (if (\<exists>p\<in>set probs. p < 0) \<or> sum_list probs \<le> 0 then Inl RuntimeError
      else Inr (inverse_cdf probs (u * sum_list probs)))"

text \<open>\<^verbatim>\<open>multinomial(1)\<close> on a tensor: one sample per row of a matrix (shape \<open>(B, 1)\<close>), one
  sample of a vector (shape \<open>(1,)\<close>); any other rank raises.\<close>

definition multinomial_t :: "real tensor \<Rightarrow> (nat \<Rightarrow> real) \<Rightarrow> error + nat tensor" where
  "multinomial_t probs u =
     (case shape probs of
        [B, k] \<Rightarrow>
          pbind (collect (map (\<lambda>b. multinomial (row_at probs k b) (u b)) [0..<B]))
            (\<lambda>xs. Inr \<lparr>shape = [B, 1], flat = (\<lambda>i. xs ! i)\<rparr>)
      | [k] \<Rightarrow>
          pbind (multinomial (row_at probs k 0) (u 0))
            (\<lambda>x. Inr \<lparr>shape = [1], flat = (\<lambda>i. x)\<rparr>)
      | _ \<Rightarrow> Inl RuntimeError)"

text \<open>\<^verbatim>\<open>row.max(-1)[1]\<close>: the index of a largest entry (the lowest such index in the model);
  raises on an empty row.\<close>

definition argmax :: "real list \<Rightarrow> error + nat" where
  "argmax xs = (if xs = [] then Inl RuntimeError else Inr (first_max_index xs [0..<length xs]))"

subsection \<open>Inputs of a step\<close>

text \<open>
  \<open>TYPE_REMOVAL\<close> and \<open>TYPE_REINSERTION\<close> are the module constants of the source, each one of
  \<^verbatim>\<open>'NNS'\<close>, \<^verbatim>\<open>'random'\<close>, \<^verbatim>\<open>'greedy'\<close>.
\<close>

datatype policy = NNS | Random | Greedy

record config =
  TYPE_REMOVAL :: policy
  TYPE_REINSERTION :: policy

text \<open>
  The arguments of \<^verbatim>\<open>forward\<close> and the state it reads.  A batched argument is given by
  instance: a function from the instance index \<open>b < batch_size\<close> to that instance's row, so
  the caller's tensors have matching batch dimensions by construction.  The graph has
  \<open>2 * n_pairs + 1\<close> nodes.
  \<^item> \<open>compater_removal b k\<close>: the aggregator's output of \<^verbatim>\<open>NodePairRemovalDecoder\<close> for
    instance \<open>b\<close> and pair \<open>k\<close>, before its \<^verbatim>\<open>.squeeze()\<close>;
  \<^item> \<open>compater_reinsertion pos_pickup b p d\<close>: the aggregator's output of
    \<^verbatim>\<open>NodePairReinsertionDecoder\<close> for the freed nodes \<open>pos_pickup\<close>, before its
    \<^verbatim>\<open>.squeeze()\<close>;
  \<^item> \<open>get_swap_mask sel b p d\<close>: \<^verbatim>\<open>problem.get_swap_mask(action_removal + 1, visit_index,
    top2)\<close> expanded to \<open>(batch, 2n+1, 2n+1)\<close>, \<open>sel\<close> being the elements of
    \<^verbatim>\<open>action_removal + 1\<close>; \<open>True\<close> marks an infeasible cell;
  \<^item> \<open>pre_action\<close>, \<open>fixed_action\<close>: the optional \<open>(batch, 3)\<close> action tensors;
  \<^item> \<open>rand_removal\<close>: the \<^verbatim>\<open>torch.rand(batch_size, n)\<close> of the random and greedy removal;
    \<open>u_removal\<close>, \<open>u_reinsertion\<close>: the draws behind the two \<^verbatim>\<open>multinomial(1)\<close> calls;
    \<open>eps_removal\<close>, \<open>eps_reinsertion\<close>: the \<^verbatim>\<open>torch.rand(batch_size, 1)\<close> compared with
    \<open>0.1\<close>.
\<close>

record step_input =
  batch_size :: nat
  n_pairs :: nat
  training :: bool
  v_range :: real
  compater_removal :: "nat \<Rightarrow> nat \<Rightarrow> real"
  compater_reinsertion :: "nat list \<Rightarrow> nat \<Rightarrow> nat \<Rightarrow> nat \<Rightarrow> real"
  get_swap_mask :: "nat list \<Rightarrow> nat \<Rightarrow> nat \<Rightarrow> nat \<Rightarrow> bool"
  solution :: "nat \<Rightarrow> nat list"
  x_in :: "nat \<Rightarrow> nat \<Rightarrow> real \<times> real"
  pre_action :: "(nat \<Rightarrow> nat \<times> nat \<times> nat) option"
  fixed_action :: "(nat \<Rightarrow> nat \<times> nat \<times> nat) option"
  require_entropy :: bool
  rand_removal :: "nat \<Rightarrow> nat \<Rightarrow> real"
  u_removal :: "nat \<Rightarrow> real"
  eps_removal :: "nat \<Rightarrow> real"
  u_reinsertion :: "nat \<Rightarrow> real"
  eps_reinsertion :: "nat \<Rightarrow> real"

definition graph_size_plus1 :: "step_input \<Rightarrow> nat" where
  "graph_size_plus1 inp = 2 * n_pairs inp + 1"

definition half_pos :: "step_input \<Rightarrow> nat" where
  "half_pos inp = (graph_size_plus1 inp - 1) div 2"

subsection \<open>Removal (\<^verbatim>\<open>action1\<close>)\<close>

text \<open>
  \<^verbatim>\<open>table[arange, idx] = v\<close> with two index vectors needs a tensor of at least two
  dimensions and every index inside its row.
\<close>

definition index_put2 :: "real tensor \<Rightarrow> nat \<Rightarrow> (nat \<Rightarrow> nat) \<Rightarrow> real \<Rightarrow> error + real tensor" where
  "index_put2 t B idx v =
     (case shape t of
        [B', k] \<Rightarrow>
          if \<exists>b\<in>set [0..<B]. B' \<le> b \<or> k \<le> idx b then Inl IndexError
          else Inr (t\<lparr>flat := (\<lambda>i. if i div k < B \<and> i mod k = idx (i div k) then v
                                    else flat t i)\<rparr>)
      | _ \<Rightarrow> Inl IndexError)"

text \<open>
  Lines 568--575: the removal logits.  \<^verbatim>\<open>NodePairRemovalDecoder.forward\<close> ends with
  \<^verbatim>\<open>.squeeze()\<close> and the caller squeezes again, then bounds the logits with
  \<^verbatim>\<open>tanh(...) * v_range\<close>.  The pair of the previous action is masked only under the guard
  \<^verbatim>\<open>pre_action is not None and pre_action[0, 0] > 0\<close>, which reads the first instance.
\<close>

definition action_removal_table :: "step_input \<Rightarrow> error + real tensor" where
  "action_removal_table inp =
     (let B = batch_size inp; n = graph_size_plus1 inp div 2;
          t = tensor_map (\<lambda>x. tanh x * v_range inp)
                (squeeze (squeeze (tensor2 B n (compater_removal inp))))
      in case pre_action inp of
           None \<Rightarrow> Inr t
         | Some prev \<Rightarrow>
             if B = 0 then Inl IndexError
             else if 0 < fst (prev 0) then index_put2 t B (\<lambda>b. fst (prev b)) masked_logit
             else Inr t)"

text \<open>Euclidean distance of two coordinate pairs: \<^verbatim>\<open>(a - b).norm(p=2)\<close>.\<close>

definition norm_diff :: "real \<times> real \<Rightarrow> real \<times> real \<Rightarrow> real" where
  "norm_diff a b = sqrt ((fst a - fst b)\<^sup>2 + (snd a - snd b)\<^sup>2)"

text \<open>
  Lines 586--612, one instance: the greedy removal score of every pair, the detour saved
  by taking out the pickup plus the one saved by taking out the delivery.  A
  \<^verbatim>\<open>gather\<close> index outside the row raises.
\<close>

definition greedy_removal_row :: "step_input \<Rightarrow> nat \<Rightarrow> error + real list" where
  "greedy_removal_row inp b =
     (let m = graph_size_plus1 inp; sol = solution inp b; x = x_in inp b in
      if length sol \<noteq> m \<or> (\<exists>v\<in>set sol. m \<le> v) then Inl RuntimeError
      else
        let pred = argsort sol;
            cost = (\<lambda>i. norm_diff (x (pred ! i)) (x i) + norm_diff (x i) (x (sol ! i))
                          - norm_diff (x (pred ! i)) (x (sol ! i)))
        in Inr (map (\<lambda>k. cost (k + 1) + cost (m div 2 + k + 1)) [0..<m div 2]))"

text \<open>\<^verbatim>\<open>fixed_action[:, :1]\<close>: a column of shape \<open>(B, 1)\<close>.\<close>

definition column :: "nat \<Rightarrow> (nat \<Rightarrow> 'a) \<Rightarrow> 'a tensor" where
  "column B f = \<lparr>shape = [B, 1], flat = f\<rparr>"

text \<open>
  \<^verbatim>\<open>log_ll.gather(1, index)\<close> for an index of shape \<open>(B, 1)\<close>: dimension 1 must exist in
  \<open>log_ll\<close>, the index must have as many dimensions, and every index must lie in its row.
\<close>

definition gather1 :: "real tensor \<Rightarrow> nat tensor \<Rightarrow> nat \<Rightarrow> error + real list" where
  "gather1 t index B =
     (if length (shape t) \<noteq> 2 then Inl IndexError
      else if length (shape index) \<noteq> 2 then Inl RuntimeError
      else
        let k = shape t ! 1 in
        if \<exists>b\<in>set [0..<B]. k \<le> flat index b then Inl RuntimeError
        else Inr (map (\<lambda>b. flat t (b * k + flat index b)) [0..<B]))"

text \<open>
  Lines 567--638: the removal decision \<open>action_removal\<close> and
  \<open>selected_log_ll_action1\<close> (one value per instance; the scalar \<^verbatim>\<open>torch.tensor(0)\<close> is
  \<open>0\<close> for every instance).  With \<open>fixed_action\<close> nothing is sampled.  In the greedy case
  \<^verbatim>\<open>torch.where\<close> evaluates the random and the greedy choice both.
\<close>

definition select_removal :: "config \<Rightarrow> step_input \<Rightarrow> error + (nat tensor \<times> real list)" where
  "select_removal cfg inp =
     (let B = batch_size inp; m = graph_size_plus1 inp in
      case TYPE_REMOVAL cfg of
        NNS \<Rightarrow>
          pbind (action_removal_table inp) (\<lambda>table.
            let log_ll_removal = along_last log_softmax table;
                probs_removal = along_last softmax table in
            pbind (case fixed_action inp of
                     Some fa \<Rightarrow> Inr (column B (\<lambda>b. fst (fa b)))
                   | None \<Rightarrow> multinomial_t probs_removal (u_removal inp))
              (\<lambda>action_removal.
                pbind (if training inp then gather1 log_ll_removal action_removal B
                       else Inr (replicate B 0))
                  (\<lambda>selected_log_ll_action1. Inr (action_removal, selected_log_ll_action1))))
      | Random \<Rightarrow>
          (let probs_removal = tensor2 B (m div 2) (rand_removal inp) in
           pbind (case fixed_action inp of
                    Some fa \<Rightarrow> Inr (column B (\<lambda>b. fst (fa b)))
                  | None \<Rightarrow> multinomial_t probs_removal (u_removal inp))
             (\<lambda>action_removal. Inr (action_removal, replicate B 0)))
      | Greedy \<Rightarrow>
          pbind (collect (map (greedy_removal_row inp) [0..<B])) (\<lambda>probs_removal.
            let probs_removal_random = tensor2 B (m div 2) (rand_removal inp) in
            pbind (case fixed_action inp of
                     Some fa \<Rightarrow> Inr (column B (\<lambda>b. fst (fa b)))
                   | None \<Rightarrow>
                       pbind (multinomial_t probs_removal_random (u_removal inp))
                         (\<lambda>action_removal_random.
                           pbind (collect (map (\<lambda>b. argmax (probs_removal ! b)) [0..<B]))
                             (\<lambda>action_removal_greedy.
                               Inr (column B (\<lambda>b. if eps_removal inp b < 1 / 10
                                                   then flat action_removal_random b
                                                   else action_removal_greedy ! b)))))
              (\<lambda>action_removal. Inr (action_removal, replicate B 0))))"

subsection \<open>Reinsertion (\<^verbatim>\<open>action2\<close>)\<close>

text \<open>
  Lines 661--705, one instance with removed pair \<open>a\<close>: the tour \<open>rec_new\<close> with the pair
  taken out, and the negated insertion cost of every cell.
\<close>

definition greedy_reinsertion :: "step_input \<Rightarrow> nat \<Rightarrow> nat \<Rightarrow> error + (nat \<Rightarrow> nat \<Rightarrow> real)" where
  "greedy_reinsertion inp b a =
     (let m = graph_size_plus1 inp; sol = solution inp b; x = x_in inp b;
          pos_pickup = 1 + a; pos_delivery = pos_pickup + half_pos inp in
      if length sol \<noteq> m \<or> m \<le> pos_pickup \<or> m \<le> pos_delivery then Inl RuntimeError
      else
        let pre_pairfirst = argsort sol ! pos_pickup;
            post_pairfirst = sol ! pos_pickup;
            rec_new1 = (sol[pre_pairfirst := post_pairfirst])[pos_pickup := pos_pickup];
            pre_pairsecond = argsort rec_new1 ! pos_delivery;
            post_pairsecond = rec_new1 ! pos_delivery;
            rec_new = rec_new1[pre_pairsecond := post_pairsecond] in
        if \<exists>v\<in>set rec_new. m \<le> v then Inl RuntimeError
        else
          let cost_insert_p = (\<lambda>i. norm_diff (x pos_pickup) (x i)
                                  + norm_diff (x pos_pickup) (x (rec_new ! i))
                                  - norm_diff (x i) (x (rec_new ! i)));
              cost_insert_d = (\<lambda>i. norm_diff (x pos_delivery) (x i)
                                  + norm_diff (x pos_delivery) (x (rec_new ! i))
                                  - norm_diff (x i) (x (rec_new ! i)))
          in Inr (\<lambda>p d. - (cost_insert_p p + cost_insert_d d)))"

text \<open>
  Lines 641--717: the reinsertion logits before masking.  The branch for the greedy policy
  tests \<open>TYPE_REMOVAL\<close> (line 659), as the source does.  Inside
  \<^verbatim>\<open>NodePairReinsertionDecoder.forward\<close>, \<^verbatim>\<open>h_hat[arange, pos_pickup]\<close> raises on a node id
  outside the graph, and the result is squeezed.
\<close>

definition action_reinsertion_table :: "config \<Rightarrow> step_input \<Rightarrow> nat tensor \<Rightarrow> error + real tensor" where
  "action_reinsertion_table cfg inp action_removal =
     (let B = batch_size inp; m = graph_size_plus1 inp;
          pos_pickup = map (\<lambda>a. 1 + a) (to_list action_removal);
          pos_delivery = map (\<lambda>p. p + half_pos inp) pos_pickup in
      if TYPE_REINSERTION cfg = NNS then
        if (\<exists>p\<in>set pos_pickup. m \<le> p) \<or> (\<exists>p\<in>set pos_delivery. m \<le> p) then Inl IndexError
        else Inr (tensor_map (\<lambda>x. tanh x * v_range inp)
                    (squeeze (tensor3 B m m (compater_reinsertion inp pos_pickup))))
      else if TYPE_REINSERTION cfg = Random then Inr (tensor3 B m m (\<lambda>b p d. 1))
      else if TYPE_REMOVAL cfg = Greedy then
        pbind (collect (map (\<lambda>b. greedy_reinsertion inp b (flat action_removal b)) [0..<B]))
          (\<lambda>tables. Inr (tensor3 B m m (\<lambda>b. tables ! b)))
      else Inl AssertionError)"

text \<open>
  Line 719, \<^verbatim>\<open>action_reinsertion_table[mask_table] = -1e20\<close>: the boolean mask has shape
  \<open>(B, m, m)\<close>, so the table must have these three dimensions.
\<close>

definition masked_fill :: "real tensor \<Rightarrow> nat \<Rightarrow> nat \<Rightarrow> (nat \<Rightarrow> nat \<Rightarrow> nat \<Rightarrow> bool) \<Rightarrow> error + real tensor" where
  "masked_fill t B m mask_table =
     (if shape t \<noteq> [B, m, m] then Inl IndexError
      else Inr (t\<lparr>flat := (\<lambda>i. if mask_table (i div (m * m)) ((i div m) mod m) (i mod m)
                                then masked_logit else flat t i)\<rparr>))"

text \<open>The mask the step asks the environment for, and the masked, flattened logits of
  every instance (\<^verbatim>\<open>view(batch_size, -1)\<close>: cell \<open>(p, d)\<close> is entry \<open>p * m + d\<close>).\<close>

definition mask_table :: "step_input \<Rightarrow> nat tensor \<Rightarrow> nat \<Rightarrow> nat \<Rightarrow> nat \<Rightarrow> bool" where
  "mask_table inp action_removal = get_swap_mask inp (map (\<lambda>a. a + 1) (to_list action_removal))"

definition reinsertion_logits ::
  "config \<Rightarrow> step_input \<Rightarrow> nat tensor \<Rightarrow> error + real list list" where
  "reinsertion_logits cfg inp action_removal =
     (let B = batch_size inp; m = graph_size_plus1 inp in
      pbind (action_reinsertion_table cfg inp action_removal) (\<lambda>table.
        pbind (masked_fill table B m (mask_table inp action_removal)) (\<lambda>masked.
          Inr (map (row_at masked (m * m)) [0..<B]))))"

text \<open>
  Lines 706--715: the uniform distribution over the feasible cells that the greedy
  policy falls back to.
\<close>

definition probs_reinsertion_random :: "step_input \<Rightarrow> nat tensor \<Rightarrow> nat \<Rightarrow> real list" where
  "probs_reinsertion_random inp action_removal b =
     (let m = graph_size_plus1 inp in
      softmax (map (\<lambda>i. if mask_table inp action_removal b (i div m) (i mod m)
                         then masked_logit else 1) [0..<m * m]))"

text \<open>
  Lines 723--756: the chosen cell of every instance as a flat index.  With
  \<open>fixed_action\<close> it is \<open>p * m + d\<close> of the given action; otherwise it is sampled (or, for
  the greedy policy, the argmax with a sampled fallback where \<open>eps < 0.1\<close>).
\<close>

definition select_pair_index ::
  "config \<Rightarrow> step_input \<Rightarrow> nat tensor \<Rightarrow> real list list \<Rightarrow> error + nat list" where
  "select_pair_index cfg inp action_removal logits =
     (let B = batch_size inp; m = graph_size_plus1 inp;
          probs_reinsertion = map softmax logits in
      case fixed_action inp of
        Some fa \<Rightarrow> Inr (map (\<lambda>b. fst (snd (fa b)) * m + snd (snd (fa b))) [0..<B])
      | None \<Rightarrow>
          if TYPE_REINSERTION cfg = Greedy then
            pbind (collect (map (\<lambda>b. multinomial (probs_reinsertion_random inp action_removal b)
                                        (u_reinsertion inp b)) [0..<B]))
              (\<lambda>action_reinsertion_random.
                pbind (collect (map (\<lambda>b. argmax (probs_reinsertion ! b)) [0..<B]))
                  (\<lambda>action_reinsertion_greedy.
                    Inr (map (\<lambda>b. if eps_reinsertion inp b < 1 / 10
                                   then action_reinsertion_random ! b
                                   else action_reinsertion_greedy ! b) [0..<B])))
          else collect (map (\<lambda>b. multinomial (probs_reinsertion ! b) (u_reinsertion inp b))
                         [0..<B]))"

text \<open>
  The action of every instance.  With \<open>fixed_action\<close> it is that tensor; otherwise
  \<^verbatim>\<open>torch.cat((action_removal.view(batch_size, -1), p_selected, d_selected), -1)\<close>, where
  the \<^verbatim>\<open>view\<close> raises unless \<open>action_removal\<close> has \<open>batch_size\<close> elements.
\<close>

definition assemble_action ::
  "step_input \<Rightarrow> nat tensor \<Rightarrow> nat list \<Rightarrow> error + (nat \<times> nat \<times> nat) list" where
  "assemble_action inp action_removal pair_index =
     (let B = batch_size inp; m = graph_size_plus1 inp in
      case fixed_action inp of
        Some fa \<Rightarrow> Inr (map fa [0..<B])
      | None \<Rightarrow>
          if B = 0 \<or> numel action_removal \<noteq> B then Inl RuntimeError
          else Inr (map (\<lambda>b. (flat action_removal b, (pair_index ! b) div m, (pair_index ! b) mod m))
                      [0..<B]))"

text \<open>
  Lines 758--762, \<open>selected_log_ll_action2\<close>: the log-softmax of the masked logits at the
  chosen flat index when the trained reinsertion policy is active in training mode,
  else \<open>0\<close>.
\<close>

definition selected_log_ll_action2 ::
  "config \<Rightarrow> step_input \<Rightarrow> real list list \<Rightarrow> nat list \<Rightarrow> error + real list" where
  "selected_log_ll_action2 cfg inp logits pair_index =
     (let B = batch_size inp; m = graph_size_plus1 inp in
      if training inp \<and> TYPE_REINSERTION cfg = NNS then
        if \<exists>b\<in>set [0..<B]. m * m \<le> pair_index ! b then Inl RuntimeError
        else Inr (map (\<lambda>b. log_softmax (logits ! b) ! (pair_index ! b)) [0..<B])
      else Inr (replicate B 0))"

subsection \<open>The step\<close>

text \<open>
  \<^verbatim>\<open>NNSDecoder.forward\<close>: the action \<open>(a, p, d)\<close> of every instance, the step
  log-likelihood of every instance and the optional entropy of the reinsertion
  distribution.
\<close>

definition NNSDecoder_forward ::
  "config \<Rightarrow> step_input \<Rightarrow> error + ((nat \<times> nat \<times> nat) list \<times> real list \<times> real list option)" where
  "NNSDecoder_forward cfg inp =
     pbind (select_removal cfg inp) (\<lambda>(action_removal, selected_log_ll_action1).
       pbind (reinsertion_logits cfg inp action_removal) (\<lambda>logits.
         pbind (select_pair_index cfg inp action_removal logits) (\<lambda>pair_index.
           pbind (assemble_action inp action_removal pair_index) (\<lambda>action.
             pbind (selected_log_ll_action2 cfg inp logits pair_index) (\<lambda>ll2.
               let log_ll = map (\<lambda>b. selected_log_ll_action1 ! b + ll2 ! b)
                              [0..<batch_size inp];
                   entropy = (if require_entropy inp \<and> training inp
                              then Some (map (\<lambda>l. entropy_of (softmax l)) logits) else None)
               in Inr (action, log_ll, entropy))))))"

section \<open>Quantities the statements about the step refer to\<close>

text \<open>
  The logits of the removal decoder for instance \<open>b\<close> when the table keeps its two
  dimensions: the bounded network output, with the previous pair at \<^verbatim>\<open>-1e20\<close> under the
  guard of line 574.
\<close>

definition removal_row :: "step_input \<Rightarrow> nat \<Rightarrow> real list" where
  "removal_row inp b =
     map (\<lambda>k. case pre_action inp of
                 None \<Rightarrow> tanh (compater_removal inp b k) * v_range inp
               | Some prev \<Rightarrow>
                   if 0 < fst (prev 0) \<and> k = fst (prev b) then masked_logit
                   else tanh (compater_removal inp b k) * v_range inp)
         [0..<n_pairs inp]"

text \<open>
  The log-softmax of the removal table's row \<open>b\<close> at pair \<open>a\<close>, and of the masked
  reinsertion logits of instance \<open>b\<close> at flat index \<open>i\<close> (for the removal decision
  \<open>action_removal\<close>).
\<close>

definition removal_log_prob :: "step_input \<Rightarrow> nat \<Rightarrow> nat \<Rightarrow> real" where
  "removal_log_prob inp b a =
     (case action_removal_table inp of
        Inr table \<Rightarrow> log_softmax (row_at table (graph_size_plus1 inp div 2) b) ! a
      | Inl e \<Rightarrow> 0)"


text \<open>
  The masked, flattened reinsertion logits written out: cell \<open>(p, d)\<close> of instance \<open>b\<close>
  holds \<^verbatim>\<open>-1e20\<close> where the mask is set, and the unmasked logit \<open>base b p d\<close>
  elsewhere.  \<open>nns_base\<close> is the unmasked logit of the trained policy, \<open>base_logits\<close> the
  one of the policy in force (all ones for the random policy).
\<close>

definition logit_rows :: "step_input \<Rightarrow> nat tensor \<Rightarrow> (nat \<Rightarrow> nat \<Rightarrow> nat \<Rightarrow> real) \<Rightarrow> real list list" where
  "logit_rows inp A base =
     map (\<lambda>b. map (\<lambda>i. if mask_table inp A b (i div graph_size_plus1 inp) (i mod graph_size_plus1 inp)
                         then masked_logit
                         else base b (i div graph_size_plus1 inp) (i mod graph_size_plus1 inp))
                 [0..<graph_size_plus1 inp * graph_size_plus1 inp])
         [0..<batch_size inp]"

definition nns_base :: "step_input \<Rightarrow> nat tensor \<Rightarrow> nat \<Rightarrow> nat \<Rightarrow> nat \<Rightarrow> real" where
  "nns_base inp A b p d =
     tanh (compater_reinsertion inp (map (\<lambda>a. 1 + a) (to_list A)) b p d) * v_range inp"

definition base_logits :: "config \<Rightarrow> step_input \<Rightarrow> nat tensor \<Rightarrow> nat \<Rightarrow> nat \<Rightarrow> nat \<Rightarrow> real" where
  "base_logits cfg inp A = (if TYPE_REINSERTION cfg = NNS then nns_base inp A else (\<lambda>b p d. 1))"

text \<open>The same step with other random numbers.\<close>

definition reseed ::
  "step_input \<Rightarrow> (nat \<Rightarrow> nat \<Rightarrow> real) \<Rightarrow> (nat \<Rightarrow> real) \<Rightarrow> (nat \<Rightarrow> real) \<Rightarrow> (nat \<Rightarrow> real) \<Rightarrow>
     (nat \<Rightarrow> real) \<Rightarrow> step_input" where
  "reseed inp r u1 e1 u2 e2 =
     inp\<lparr>rand_removal := r, u_removal := u1, eps_removal := e1,
         u_reinsertion := u2, eps_reinsertion := e2\<rparr>"

text \<open>
  A previous action, when given, names a pair of the instance (an index below \<open>n\<close>) for
  every instance.
\<close>

definition pre_action_ok :: "step_input \<Rightarrow> bool" where
  "pre_action_ok inp =
     (case pre_action inp of None \<Rightarrow> True
      | Some prev \<Rightarrow> \<forall>b<batch_size inp. fst (prev b) < n_pairs inp)"

text \<open>
  The step written out for tables that keep all their dimensions (at least two instances
  and two request pairs) under the trained removal policy.  A draw \<open>u\<close> from a softmax
  row samples \<open>inverse_cdf row u\<close>, since the row sums to one.  \<open>sampled_result\<close> is the
  result without \<open>fixed_action\<close>, \<open>fixed_result\<close> the one with it.
\<close>

definition sample_removal :: "step_input \<Rightarrow> nat \<Rightarrow> nat" where
  "sample_removal inp b = inverse_cdf (softmax (removal_row inp b)) (u_removal inp b)"

definition sampled_removal :: "step_input \<Rightarrow> nat tensor" where
  "sampled_removal inp =
     \<lparr>shape = [batch_size inp, 1],
      flat = (\<lambda>i. map (sample_removal inp) [0..<batch_size inp] ! i)\<rparr>"

definition sample_pair_index :: "config \<Rightarrow> step_input \<Rightarrow> nat tensor \<Rightarrow> nat \<Rightarrow> nat" where
  "sample_pair_index cfg inp A b =
     inverse_cdf (softmax (logit_rows inp A (base_logits cfg inp A) ! b)) (u_reinsertion inp b)"

definition sampled_result ::
  "config \<Rightarrow> step_input \<Rightarrow> (nat \<times> nat \<times> nat) list \<times> real list \<times> real list option" where
  "sampled_result cfg inp =
     (let A = sampled_removal inp; m = graph_size_plus1 inp;
          logits = logit_rows inp A (base_logits cfg inp A)
      in (map (\<lambda>b. (sample_removal inp b, sample_pair_index cfg inp A b div m,
                     sample_pair_index cfg inp A b mod m)) [0..<batch_size inp],
          map (\<lambda>b. (if training inp
                      then log_softmax (removal_row inp b) ! sample_removal inp b else 0) +
                     (if training inp \<and> TYPE_REINSERTION cfg = NNS
                      then log_softmax (logits ! b) ! sample_pair_index cfg inp A b else 0))
              [0..<batch_size inp],
          if require_entropy inp \<and> training inp
          then Some (map (\<lambda>l. entropy_of (softmax l)) logits) else None))"


section \<open>Example steps\<close>

text \<open>
  Two instances with two request pairs each (five nodes), all network outputs zero,
  \<open>v_range = 6\<close>, inference mode, every draw \<open>0\<close>.  In \<open>ex_input\<close> the mask leaves the single
  cell \<open>(3, 4)\<close> feasible for every instance; the variants change one argument each.
  \<open>ex_cfg\<close> is the configuration of the source as shipped (both policies trained),
  \<open>ex_cfg_random\<close> and \<open>ex_cfg_greedy\<close> change the reinsertion policy.
  \<open>sole_row x\<close> is the masked logit row of such a mask with unmasked logit \<open>x\<close>.
\<close>

definition ex_cfg :: config where
  "ex_cfg = \<lparr>TYPE_REMOVAL = NNS, TYPE_REINSERTION = NNS\<rparr>"

definition ex_cfg_random :: config where
  "ex_cfg_random = \<lparr>TYPE_REMOVAL = NNS, TYPE_REINSERTION = Random\<rparr>"

definition ex_cfg_greedy :: config where
  "ex_cfg_greedy = \<lparr>TYPE_REMOVAL = NNS, TYPE_REINSERTION = Greedy\<rparr>"

definition ex_input :: step_input where
  "ex_input =
     \<lparr>batch_size = 2, n_pairs = 2, training = False, v_range = 6,
      compater_removal = (\<lambda>b k. 0),
      compater_reinsertion = (\<lambda>pos b p d. 0),
      get_swap_mask = (\<lambda>sel b p d. \<not> (p = 3 \<and> d = 4)),
      solution = (\<lambda>b. [1, 3, 4, 2, 0]),
      x_in = (\<lambda>b i. (0, 0)),
      pre_action = None, fixed_action = None, require_entropy = False,
      rand_removal = (\<lambda>b k. 1 / 2), u_removal = (\<lambda>b. 0), eps_removal = (\<lambda>b. 1 / 2),
      u_reinsertion = (\<lambda>b. 0), eps_reinsertion = (\<lambda>b. 1 / 2)\<rparr>"

definition ex_all_masked :: step_input where
  "ex_all_masked = ex_input\<lparr>get_swap_mask := (\<lambda>sel b p d. True)\<rparr>"



definition ex_train :: step_input where
  "ex_train = ex_input\<lparr>training := True\<rparr>"


definition ex_batch1 :: step_input where
  "ex_batch1 = ex_input\<lparr>batch_size := 1\<rparr>"

definition sole_row :: "real \<Rightarrow> real list" where
  "sole_row x =
     [masked_logit, masked_logit, masked_logit, masked_logit, masked_logit,
      masked_logit, masked_logit, masked_logit, masked_logit, masked_logit,
      masked_logit, masked_logit, masked_logit, masked_logit, masked_logit,
      masked_logit, masked_logit, masked_logit, masked_logit, x,
      masked_logit, masked_logit, masked_logit, masked_logit, masked_logit]"

section \<open>Predecessor and successor are inverse\<close>

lemma perm_set: "is_permutation xs \<Longrightarrow> set xs = {0..<length xs}"
  unfolding is_permutation_def
  by (metis atLeast0LessThan card_lessThan card_subset_eq distinct_card finite_lessThan
      lessThan_iff subsetI)

lemma argsort_length: "length (argsort xs) = length xs"
  by (simp add: argsort_def)

lemma argsort_spec:
  assumes "is_permutation xs" "k < length xs"
  shows "argsort xs ! k < length xs \<and> xs ! (argsort xs ! k) = k"
proof -
  let ?m = "length xs"
  let ?ps = "sort_key fst (zip xs [0..<?m])"
  have len: "length ?ps = ?m" by simp
  have "mset (map fst ?ps) = mset xs"
    by (metis mset_map mset_sort map_fst_zip length_upt diff_zero)
  then have "distinct (map fst ?ps)" "set (map fst ?ps) = set [0..<?m]"
    using assms(1) perm_set[OF assms(1)]
    by (metis is_permutation_def mset_eq_imp_distinct_iff, metis mset_eq_setD set_upt)
  moreover have "sorted (map fst ?ps)" by (rule sorted_sort_key)
  ultimately have mf: "map fst ?ps = [0..<?m]"
    by (metis sorted_distinct_set_unique sorted_upt distinct_upt)
  have "?ps ! k \<in> set ?ps" using assms(2) len by (metis nth_mem)
  then have "?ps ! k \<in> set (zip xs [0..<?m])" by simp
  then obtain j where j: "j < ?m" "?ps ! k = (xs ! j, j)"
    by (auto simp: set_zip)
  have "fst (?ps ! k) = k" using mf assms(2) len by (metis nth_map nth_upt add_0)
  with j have "xs ! j = k" by simp
  moreover have "argsort xs ! k = j" using j assms(2) len by (simp add: argsort_def)
  ultimately show ?thesis using j by simp
qed

lemma argsort_left_inverse:
  assumes "is_permutation xs" "i < length xs"
  shows "argsort xs ! (xs ! i) = i"
proof -
  have lt: "xs ! i < length xs" using assms by (simp add: is_permutation_def)
  from argsort_spec[OF assms(1) lt]
  have "argsort xs ! (xs ! i) < length xs" "xs ! (argsort xs ! (xs ! i)) = xs ! i" by simp_all
  moreover have "distinct xs" using assms(1) by (simp add: is_permutation_def)
  ultimately show ?thesis using assms(2) by (simp add: nth_eq_iff_index_eq)
qed

text \<open>
  Claim C8.  For every valid tour, \<open>argsort solution\<close> is the inverse permutation of
  \<open>solution\<close>: composing the two in either order gives the identity on the \<open>2n+1\<close> node
  ids, and it is the only array of that length with this property.
\<close>

theorem argsort_is_unique_inverse:
  assumes "valid_tour n sol"
  shows "length (argsort sol) = 2 * n + 1 \<and>
         (\<forall>i<2 * n + 1. argsort sol ! (sol ! i) = i \<and>
                          sol ! (argsort sol ! i) = i) \<and>
         (\<forall>pre'. length pre' = 2 * n + 1 \<and> (\<forall>i<2 * n + 1. pre' ! (sol ! i) = i)
                   \<longrightarrow> pre' = argsort sol)"
proof -
  have len: "length sol = 2 * n + 1" and perm: "is_permutation sol"
    using assms by (simp_all add: valid_tour_def)
  have inv: "\<forall>i<2 * n + 1. argsort sol ! (sol ! i) = i \<and>
                             sol ! (argsort sol ! i) = i"
    using argsort_left_inverse[OF perm] argsort_spec[OF perm] len by simp
  have uniq: "pre' = argsort sol"
    if h: "length pre' = 2 * n + 1 \<and> (\<forall>i<2 * n + 1. pre' ! (sol ! i) = i)" for pre'
  proof (rule nth_equalityI)
    show "length pre' = length (argsort sol)" using h len by (simp add: argsort_length)
  next
    fix k assume "k < length pre'"
    then have k: "k < length sol" using h len by simp
    from argsort_spec[OF perm k] have a: "argsort sol ! k < 2 * n + 1"
      and b: "sol ! (argsort sol ! k) = k" using len by simp_all
    from h a have "pre' ! (sol ! (argsort sol ! k)) = argsort sol ! k" by blast
    then show "pre' ! k = argsort sol ! k" using b by simp
  qed
  show ?thesis using len inv uniq by (simp add: argsort_length)
qed

theorem argsort_is_unique_inverse_witness:
  "valid_tour 1 [2, 0, 1] \<and> argsort [2, 0, 1] = [1, 2, 0] \<and>
   map (\<lambda>i. argsort [2, 0, 1] ! ([2, 0, 1] ! i)) [0, 1, 2] = [0, 1, 2] \<and>
   map (\<lambda>i. [2, 0, 1] ! (argsort [2, 0, 1] ! i)) [0, 1, 2] = [0, 1, 2]"
proof -
  have v: "valid_tour 1 [2, 0, 1]"
    by (simp add: valid_tour_def is_permutation_def tour_order_def node_at_def upt_rec numeral_3_eq_3)
  have a: "argsort [2, 0, 1] = [1, 2, 0]"
    by (simp add: argsort_def upt_rec)
  from argsort_is_unique_inverse[OF v] a v show ?thesis by simp
qed

section \<open>The walk over the tour\<close>

lemma perm_nth_less: "is_permutation xs \<Longrightarrow> v < length xs \<Longrightarrow> xs ! v < length xs"
  by (simp add: is_permutation_def)

lemma node_at_Suc: "node_at sol (Suc k) = sol ! node_at sol k"
  by (simp add: node_at_def)

lemma node_at_0: "node_at sol 0 = 0"
  by (simp add: node_at_def)

lemma node_at_less:
  assumes "is_permutation sol" "0 < length sol"
  shows "node_at sol k < length sol"
proof (induction k)
  case 0
  then show ?case using assms(2) by (simp add: node_at_0)
next
  case (Suc k)
  then show ?case using assms(1) by (simp add: node_at_Suc perm_nth_less)
qed

lemma valid_tour_cover:
  assumes "valid_tour n sol" "v < 2 * n + 1"
  shows "v \<in> set (tour_order sol)"
proof -
  have "\<forall>v\<in>set [0..<2 * n + 1]. v \<in> set (tour_order sol)"
    using assms(1) unfolding valid_tour_def by blast
  moreover have "v \<in> set [0..<2 * n + 1]" using assms(2) by (simp del: upt_Suc)
  ultimately show ?thesis by blast
qed

lemma tour_order_nth: "j < length sol \<Longrightarrow> tour_order sol ! j = node_at sol (Suc j)"
  by (simp add: tour_order_def)

lemma tour_order_length: "length (tour_order sol) = length sol"
  by (simp add: tour_order_def)

lemma valid_tour_distinct:
  assumes "valid_tour n sol"
  shows "distinct (tour_order sol)"
proof -
  have len: "length sol = 2 * n + 1"
    using assms by (simp add: valid_tour_def)
  have "{0..<2 * n + 1} \<subseteq> set (tour_order sol)"
    using valid_tour_cover[OF assms] by auto
  then have "card {0..<2 * n + 1} \<le> card (set (tour_order sol))"
    by (intro card_mono) simp_all
  then have "length (tour_order sol) \<le> card (set (tour_order sol))"
    using len by (simp add: tour_order_length)
  then have "card (set (tour_order sol)) = length (tour_order sol)"
    using card_length[of "tour_order sol"] by simp
  then show ?thesis by (rule card_distinct)
qed

lemma valid_tour_closes:
  assumes "valid_tour n sol"
  shows "node_at sol (2 * n + 1) = 0"
proof -
  have len: "length sol = 2 * n + 1"
    using assms by (simp add: valid_tour_def)
  have d: "distinct (tour_order sol)" by (rule valid_tour_distinct[OF assms])
  have "0 \<in> set (tour_order sol)" by (rule valid_tour_cover[OF assms]) simp
  then obtain j where j: "j < 2 * n + 1" "tour_order sol ! j = 0"
    using len by (auto simp: in_set_conv_nth tour_order_length)
  then have z: "node_at sol (Suc j) = 0" using len by (simp add: tour_order_nth)
  show ?thesis
  proof (cases "Suc j = 2 * n + 1")
    case True
    with z show ?thesis by simp
  next
    case False
    with j have sj: "Suc j < 2 * n + 1" by simp
    have "tour_order sol ! Suc j = node_at sol (Suc (Suc j))"
      using sj len by (simp add: tour_order_nth)
    also have "\<dots> = sol ! 0" using z by (simp add: node_at_Suc)
    also have "\<dots> = tour_order sol ! 0" using len by (simp add: tour_order_nth node_at_Suc node_at_0)
    finally have "tour_order sol ! Suc j = tour_order sol ! 0" .
    then have "Suc j = 0"
      using d sj len by (simp add: nth_eq_iff_index_eq tour_order_length)
    then show ?thesis by simp
  qed
qed

lemma position_loop_append:
  "position_loop tk cs sol (xs @ ys) s =
     (case position_loop tk cs sol xs s of Inl e \<Rightarrow> Inl e
      | Inr s' \<Rightarrow> position_loop tk cs sol ys s')"
  by (induction xs arbitrary: s) (auto split: sum.splits)

lemma position_loop_snoc:
  "position_loop tk cs sol [0..<Suc k] s =
     (case position_loop tk cs sol [0..<k] s of Inl e \<Rightarrow> Inl e
      | Inr s' \<Rightarrow> position_step tk cs sol k s')"
  by (simp add: position_loop_append split: sum.splits)

lemma sorted_wrt_filter_gen: "sorted_wrt R xs \<Longrightarrow> sorted_wrt R (filter P xs)"
  by (induction xs) auto

lemma stack_inv_step:
  assumes inv: "stack_inv n k st ops" and c: "c \<le> 2 * n"
  shows "stack_inv n (Suc k) (stack_update n k st c) (visit_node n ops c)"
proof -
  from inv have len: "length st = n + 1" and z: "st ! 0 = 0" and d: "distinct ops"
    and op: "\<forall>p\<in>set ops. 1 \<le> p \<and> p \<le> n \<and> 0 < st ! p \<and> st ! p \<le> real k"
    and cl: "\<forall>p. 1 \<le> p \<and> p \<le> n \<and> p \<notin> set ops \<longrightarrow> st ! p = - (1 / 100)"
    and so: "sorted_wrt (\<lambda>p q. st ! q < st ! p) ops"
    by (simp_all add: stack_inv_def)
  consider (pick) "0 < c" "c \<le> n" | (deli) "n < c" | (depot) "c = 0" by linarith
  then show ?thesis
  proof cases
    case pick
    let ?st = "st[c := real (k + 1)]"
    let ?ops = "c # filter (\<lambda>p. p \<noteq> c) ops"
    have su: "stack_update n k st c = ?st" using pick by (simp add: stack_update_def)
    have vn: "visit_node n ops c = ?ops" using pick by (simp add: visit_node_def)
    have s1: "sorted_wrt (\<lambda>p q. st ! q < st ! p) (filter (\<lambda>p. p \<noteq> c) ops)"
      using so by (rule sorted_wrt_filter_gen)
    have s2: "sorted_wrt (\<lambda>p q. ?st ! q < ?st ! p) (filter (\<lambda>p. p \<noteq> c) ops)"
      by (rule sorted_wrt_mono_rel[OF _ s1]) auto
    have s3: "\<forall>q\<in>set (filter (\<lambda>p. p \<noteq> c) ops). ?st ! q < ?st ! c"
      using op len pick by auto
    have "stack_inv n (Suc k) ?st ?ops"
      unfolding stack_inv_def
      using len z d op cl pick s2 s3 by (auto simp: nth_list_update)
    then show ?thesis using su vn by simp
  next
    case deli
    let ?st = "st[c - n := - (1 / 100)]"
    let ?ops = "filter (\<lambda>p. p \<noteq> c - n) ops"
    have su: "stack_update n k st c = ?st" using deli by (simp add: stack_update_def)
    have vn: "visit_node n ops c = ?ops" using deli by (simp add: visit_node_def)
    have s1: "sorted_wrt (\<lambda>p q. st ! q < st ! p) ?ops"
      using so by (rule sorted_wrt_filter_gen)
    have s2: "sorted_wrt (\<lambda>p q. ?st ! q < ?st ! p) ?ops"
      by (rule sorted_wrt_mono_rel[OF _ s1]) auto
    have "stack_inv n (Suc k) ?st ?ops"
      unfolding stack_inv_def
      using len z d op cl deli c s2 by (auto simp: nth_list_update)
    then show ?thesis using su vn by simp
  next
    case depot
    have su: "stack_update n k st c = st" using depot by (simp add: stack_update_def)
    have vn: "visit_node n ops c = ops" using depot by (simp add: visit_node_def)
    have "stack_inv n (Suc k) st ops"
      unfolding stack_inv_def using len z d op cl so by auto
    then show ?thesis using su vn by simp
  qed
qed

lemma top2_of_stack:
  assumes inv: "stack_inv n k st ops" and n: "1 \<le> n" and t: "is_top2 st ab"
  shows "top2_entry_ok ops ab"
proof -
  obtain a b where ab: "ab = (a, b)" by (cases ab)
  from inv have len: "length st = n + 1" and z: "st ! 0 = 0" and d: "distinct ops"
    and op: "\<forall>p\<in>set ops. 1 \<le> p \<and> p \<le> n \<and> 0 < st ! p \<and> st ! p \<le> real k"
    and cl: "\<forall>p. 1 \<le> p \<and> p \<le> n \<and> p \<notin> set ops \<longrightarrow> st ! p = - (1 / 100)"
    and so: "sorted_wrt (\<lambda>p q. st ! q < st ! p) ops"
    by (simp_all add: stack_inv_def)
  from t ab have a: "a \<le> n" and b: "b \<le> n" and ne: "a \<noteq> b" and ba: "st ! b \<le> st ! a"
    and mx: "\<forall>j\<le>n. j \<noteq> a \<longrightarrow> st ! j \<le> st ! b"
    using len by (auto simp: is_top2_def)
  have nonopen: "st ! j \<le> 0" if "j \<le> n" "j \<notin> set ops" for j
  proof (cases "j = 0")
    case True then show ?thesis using z by simp
  next
    case False
    then have "st ! j = - (1 / 100)" using cl that by simp
    then show ?thesis by simp
  qed
  show ?thesis
  proof (cases ops)
    case Nil
    have "a = 0"
    proof (rule ccontr)
      assume "a \<noteq> 0"
      then have "st ! 0 \<le> st ! b" using mx by auto
      moreover have "st ! a = - (1 / 100)" using cl a \<open>a \<noteq> 0\<close> Nil by simp
      ultimately show False using ba z by simp
    qed
    then show ?thesis using Nil ab by (simp add: top2_entry_ok_def)
  next
    case (Cons p rest)
    have pin: "p \<in> set ops" using Cons by simp
    then have p: "1 \<le> p" "p \<le> n" "0 < st ! p" using op by auto
    have below: "st ! q < st ! p" if "q \<in> set rest" for q
      using so Cons that by auto
    have others: "st ! j < st ! p" if "j \<le> n" "j \<noteq> p" for j
    proof (cases "j \<in> set ops")
      case True
      then show ?thesis using that Cons below by auto
    next
      case False
      then show ?thesis using nonopen[OF that(1)] p by simp
    qed
    have ap: "a = p"
    proof (rule ccontr)
      assume "a \<noteq> p"
      then have "st ! p \<le> st ! b" using mx p by auto
      then have "st ! p \<le> st ! a" using ba by simp
      then show False using others[OF a \<open>a \<noteq> p\<close>] by simp
    qed
    show ?thesis
    proof (cases rest)
      case Nil
      have "b = 0"
      proof (rule ccontr)
        assume b0: "b \<noteq> 0"
        have "b \<notin> set ops" using Nil Cons ne ap by auto
        then have "st ! b = - (1 / 100)" using cl b b0 by simp
        moreover have "st ! 0 \<le> st ! b" using mx ap p by auto
        ultimately show False using z by simp
      qed
      then show ?thesis using Nil Cons ab ap by (simp add: top2_entry_ok_def)
    next
      case (Cons q rest')
      have qin: "q \<in> set ops" using Cons \<open>ops = p # rest\<close> by simp
      then have q: "1 \<le> q" "q \<le> n" "0 < st ! q" using op by auto
      have qp: "q \<noteq> p" using d Cons \<open>ops = p # rest\<close> by auto
      have "st ! q \<le> st ! b" using mx q qp ap by auto
      then have bpos: "0 < st ! b" using q by simp
      have "b \<noteq> 0"
      proof
        assume "b = 0"
        then show False using bpos z by simp
      qed
      moreover have "a \<noteq> 0" using ap p by simp
      ultimately show ?thesis using Cons \<open>ops = p # rest\<close> ab ap
        by (simp add: top2_entry_ok_def)
    qed
  qed
qed

lemma position_step_eq:
  assumes "length sol = 2 * n + 1" "pre s < 2 * n + 1" "sol ! pre s < 2 * n + 1"
    "length (visit_index s) = 2 * n + 1" "length (stacks s) = n + 1"
    "length (top2 s) = 2 * n + 1" "cs \<longrightarrow> 1 \<le> n"
  shows "position_step tk cs sol k s =
     Inr (if cs then
            s\<lparr>visit_index := (visit_index s)[sol ! pre s := k + 1], pre := sol ! pre s,
              stacks := stack_update n k (stacks s) (sol ! pre s),
              top2 := (top2 s)[sol ! pre s := tk (stack_update n k (stacks s) (sol ! pre s))]\<rparr>
          else s\<lparr>visit_index := (visit_index s)[sol ! pre s := k + 1], pre := sol ! pre s\<rparr>)"
proof -
  have h: "(2 * n + 1) div 2 = n" by simp
  show ?thesis
    using assms unfolding position_step_def Let_def h stack_update_def
    by (auto simp: h)
qed

lemma distinct_nodes:
  assumes "valid_tour n sol" "j < 2 * n + 1" "k < 2 * n + 1" "j \<noteq> k"
  shows "node_at sol (Suc j) \<noteq> node_at sol (Suc k)"
proof -
  have len: "length sol = 2 * n + 1" using assms(1) by (simp add: valid_tour_def)
  have d: "distinct (tour_order sol)" by (rule valid_tour_distinct[OF assms(1)])
  have "tour_order sol ! j \<noteq> tour_order sol ! k"
    using d assms(2-4) len by (simp add: nth_eq_iff_index_eq tour_order_length)
  then show ?thesis using assms(2,3) len by (simp add: tour_order_nth)
qed

lemma open_pickups_Suc:
  assumes "k < length sol"
  shows "open_pickups n (take (Suc k) (tour_order sol)) =
         visit_node n (open_pickups n (take k (tour_order sol))) (node_at sol (Suc k))"
  using assms
  by (simp add: open_pickups_def take_Suc_conv_app_nth tour_order_length tour_order_nth)

lemma step_preserves:
  assumes vt: "valid_tour n sol" and k: "k < 2 * n + 1" and cs: "cs \<longrightarrow> 1 \<le> n"
    and vi: "vis_inv n sol k s"
  shows "\<exists>s'. position_step tk cs sol k s = Inr s' \<and> vis_inv n sol (Suc k) s' \<and>
              (cs \<longrightarrow> admissible_topk tk \<longrightarrow> stk_inv n sol k s \<longrightarrow> stk_inv n sol (Suc k) s')"
proof -
  have len: "length sol = 2 * n + 1" and perm: "is_permutation sol"
    using vt by (simp_all add: valid_tour_def)
  let ?c = "sol ! pre s"
  have pre: "pre s = node_at sol k" using vi by (simp add: vis_inv_def)
  have c_eq: "?c = node_at sol (Suc k)" using pre by (simp add: node_at_Suc)
  have pre_lt: "pre s < 2 * n + 1" using pre node_at_less[OF perm, of k] len by simp
  have c_lt: "?c < 2 * n + 1" using c_eq node_at_less[OF perm, of "Suc k"] len by simp
  let ?st = "stack_update n k (stacks s) ?c"
  let ?s' = "if cs then
            s\<lparr>visit_index := (visit_index s)[?c := k + 1], pre := ?c,
              stacks := ?st, top2 := (top2 s)[?c := tk ?st]\<rparr>
          else s\<lparr>visit_index := (visit_index s)[?c := k + 1], pre := ?c\<rparr>"
  have eq: "position_step tk cs sol k s = Inr ?s'"
    using position_step_eq[OF len pre_lt c_lt _ _ _ cs] vi by (simp add: vis_inv_def)
  have old: "node_at sol (Suc j) \<noteq> ?c" if "j < k" for j
    using distinct_nodes[OF vt, of j k] that k c_eq by simp
  have lst: "length ?st = length (stacks s)" by (simp add: stack_update_def)
  have vlen: "length (visit_index s) = 2 * n + 1" using vi by (simp add: vis_inv_def)
  have vnew: "(visit_index s)[?c := k + 1] ! node_at sol (Suc j) = Suc j" if "j < Suc k" for j
  proof (cases "j = k")
    case True
    then show ?thesis using c_eq c_lt vlen by simp
  next
    case False
    then have jk: "j < k" using that by simp
    then have "visit_index s ! node_at sol (Suc j) = Suc j" using vi by (simp add: vis_inv_def)
    then show ?thesis using old[OF jk] by (simp add: nth_list_update)
  qed
  have v': "vis_inv n sol (Suc k) ?s'"
    unfolding vis_inv_def using vi vnew c_eq lst by (simp add: vis_inv_def)
  have s': "stk_inv n sol (Suc k) ?s'" if c1: "cs" and adm: "admissible_topk tk" and si: "stk_inv n sol k s"
  proof -
    let ?ops = "open_pickups n (take k (tour_order sol))"
    have n1: "1 \<le> n" using cs c1 by simp
    have a: "stack_inv n (Suc k) ?st (visit_node n ?ops ?c)"
      using stack_inv_step[of n k "stacks s" ?ops ?c] si c_lt by (simp add: stk_inv_def)
    have op: "open_pickups n (take (Suc k) (tour_order sol)) = visit_node n ?ops ?c"
      using open_pickups_Suc[of k sol n] k len c_eq by simp
    have "2 \<le> length ?st" using a n1 by (simp add: stack_inv_def)
    then have "is_top2 ?st (tk ?st)" using adm by (simp add: admissible_topk_def)
    then have b: "top2_entry_ok (visit_node n ?ops ?c) (tk ?st)"
      using top2_of_stack[OF a n1] by simp
    have lt2: "?c < length (top2 s)" using vi c_lt by (simp add: vis_inv_def)
    have tnew: "top2_entry_ok (open_pickups n (take (Suc j) (tour_order sol)))
                  ((top2 s)[?c := tk ?st] ! node_at sol (Suc j))" if "j < Suc k" for j
    proof (cases "j = k")
      case True
      then show ?thesis using b op lt2 c_eq by simp
    next
      case False
      then have jk: "j < k" using that by simp
      then have "top2_entry_ok (open_pickups n (take (Suc j) (tour_order sol)))
                  (top2 s ! node_at sol (Suc j))" using si by (simp add: stk_inv_def)
      then show ?thesis using old[OF jk] by (simp add: nth_list_update)
    qed
    show ?thesis
      unfolding stk_inv_def using c1 a op tnew by simp
  qed
  show ?thesis using eq v' s' by (intro exI[of _ ?s']) simp
qed

lemma initial_inv:
  assumes "length sol = 2 * n + 1"
  shows "vis_inv n sol 0 (initial_state sol) \<and> stk_inv n sol 0 (initial_state sol)"
proof -
  have h: "(2 * n + 1) div 2 = n" by simp
  show ?thesis using assms
    by (auto simp: vis_inv_def stk_inv_def initial_state_def Let_def h node_at_0
        stack_inv_def open_pickups_def nth_list_update)
qed

lemma loop_invariant:
  assumes vt: "valid_tour n sol" and cs: "cs \<longrightarrow> 1 \<le> n" and k: "k \<le> 2 * n + 1"
  shows "\<exists>s. position_loop tk cs sol [0..<k] (initial_state sol) = Inr s \<and> vis_inv n sol k s \<and>
             (cs \<longrightarrow> admissible_topk tk \<longrightarrow> stk_inv n sol k s)"
  using k
proof (induction k)
  case 0
  have "length sol = 2 * n + 1" using vt by (simp add: valid_tour_def)
  then show ?case using initial_inv[of sol n] by simp
next
  case (Suc k)
  then obtain s where s: "position_loop tk cs sol [0..<k] (initial_state sol) = Inr s"
    "vis_inv n sol k s" "cs \<longrightarrow> admissible_topk tk \<longrightarrow> stk_inv n sol k s" by auto
  from Suc.prems have k: "k < 2 * n + 1" by simp
  from step_preserves[OF vt k cs s(2), of tk] obtain s' where
    s': "position_step tk cs sol k s = Inr s'" "vis_inv n sol (Suc k) s'"
      "cs \<longrightarrow> admissible_topk tk \<longrightarrow> stk_inv n sol k s \<longrightarrow> stk_inv n sol (Suc k) s'" by blast
  have "position_loop tk cs sol [0..<Suc k] (initial_state sol) = Inr s'"
    using s(1) s'(1) by (simp only: position_loop_snoc sum.case)
  then show ?case using s' s(3) by blast
qed

lemma first_max_index_spec:
  "js \<noteq> [] \<Longrightarrow> first_max_index xs js \<in> set js \<and>
     (\<forall>j\<in>set js. xs ! j \<le> xs ! first_max_index xs js)"
proof (induction xs js rule: first_max_index.induct)
  case (1 xs)
  then show ?case by simp
next
  case (2 xs j)
  then show ?case by simp
next
  case (3 xs j k js)
  then show ?case by (auto simp: Let_def)
qed

lemma topk2_admissible: "admissible_topk topk2"
  unfolding admissible_topk_def
proof (intro allI impI)
  fix xs :: "real list"
  assume len: "2 \<le> length xs"
  let ?all = "[0..<length xs]"
  let ?a = "first_max_index xs ?all"
  let ?rest = "filter (\<lambda>j. j \<noteq> ?a) ?all"
  let ?b = "first_max_index xs ?rest"
  have ne: "?all \<noteq> []" using len by auto
  from first_max_index_spec[OF ne, of xs]
  have a: "?a < length xs" "\<forall>j<length xs. xs ! j \<le> xs ! ?a" by auto
  have "\<exists>j<length xs. j \<noteq> ?a"
  proof (cases "?a = 0")
    case True
    then show ?thesis using len by (intro exI[of _ 1]) simp
  next
    case False
    then show ?thesis using len by (intro exI[of _ 0]) auto
  qed
  then have ne2: "?rest \<noteq> []" by (auto simp: filter_empty_conv)
  from first_max_index_spec[OF ne2, of xs]
  have b: "?b < length xs" "?b \<noteq> ?a" "\<forall>j<length xs. j \<noteq> ?a \<longrightarrow> xs ! j \<le> xs ! ?b"
    by auto
  show "is_top2 xs (topk2 xs)"
    unfolding is_top2_def topk2_def Let_def using a b by auto
qed

section \<open>Visit index\<close>

text \<open>
  Claim C7, as the code has it.  For every valid tour of \<open>2n+1\<close> nodes the returned visit
  index \<^verbatim>\<open>(visit_index % seq_length).long()\<close> has length \<open>2n+1\<close>, its values lie in
  \<open>0..2n\<close> and are pairwise distinct: the \<open>j\<close>-th node after the depot (\<open>j = 1..2n\<close>) gets
  its 1-based rank \<open>j\<close>, and the depot, visited last at rank \<open>2n+1\<close>, gets
  \<open>(2n+1) mod (2n+1) = 0\<close>.  The function returns for every such tour (with
  \<open>calc_stacks\<close> it needs at least one request pair, for \<^verbatim>\<open>topk(2)\<close>).
\<close>

theorem visit_index_cyclic_rank:
  assumes vt: "valid_tour n sol" and pat: "length pattern = 2 * n + 1"
    and cs: "calc_stacks \<longrightarrow> 1 \<le> n"
  shows "\<exists>emb vi t2. position_embedding tk pattern sol calc_stacks = Inr (emb, vi, t2) \<and>
           length vi = 2 * n + 1 \<and> (\<forall>v\<in>set vi. v \<le> 2 * n) \<and> distinct vi \<and> vi ! 0 = 0 \<and>
           (\<forall>j<2 * n. vi ! (tour_order sol ! j) = j + 1)"
proof -
  let ?m = "2 * n + 1"
  have len: "length sol = ?m" using vt by (simp add: valid_tour_def)
  from loop_invariant[OF vt cs, of ?m tk] obtain s where
    run: "position_loop tk calc_stacks sol [0..<?m] (initial_state sol) = Inr s"
    and vi: "vis_inv n sol ?m s" by auto
  let ?vi = "map (\<lambda>v. v mod ?m) (visit_index s)"
  let ?t2 = "if calc_stacks then Some (top2 s) else None"
  have vlen: "length (visit_index s) = ?m" using vi by (simp add: vis_inv_def)
  have rank: "visit_index s ! node_at sol (Suc j) = Suc j" if "j < ?m" for j
    using vi that by (simp add: vis_inv_def)
  have eq: "position_embedding tk pattern sol calc_stacks =
              Inr (map (\<lambda>v. pattern ! v) ?vi, ?vi, ?t2)"
    using run pat len by (simp add: position_embedding_def Let_def)
  have perm: "is_permutation sol" using vt by (simp add: valid_tour_def)
  have nlt: "node_at sol k < ?m" for k using node_at_less[OF perm, of k] len by simp
  have r1: "?vi ! (tour_order sol ! j) = j + 1" if "j < 2 * n" for j
  proof -
    have "?vi ! node_at sol (Suc j) = Suc j mod ?m"
      using rank[of j] that nlt[of "Suc j"] vlen by simp
    then show ?thesis using that len by (simp add: tour_order_nth)
  qed
  have r0: "?vi ! 0 = 0"
  proof -
    have "visit_index s ! node_at sol (Suc (2 * n)) = Suc (2 * n)" using rank[of "2 * n"] by simp
    then have "visit_index s ! 0 = ?m" using valid_tour_closes[OF vt] by simp
    then show ?thesis using vlen by simp
  qed
  have bound: "\<forall>v\<in>set ?vi. v \<le> 2 * n" by auto
  have onto: "\<exists>j<?m. u = node_at sol (Suc j)" if "u < ?m" for u
  proof -
    have "u \<in> set (tour_order sol)" using valid_tour_cover[OF vt that] .
    then show ?thesis using len by (auto simp: in_set_conv_nth tour_order_length tour_order_nth)
  qed
  have dist: "distinct ?vi"
    unfolding distinct_conv_nth
  proof (intro allI impI)
    fix u w assume u: "u < length ?vi" and w: "w < length ?vi" and ne: "u \<noteq> w"
    from u w vlen have u': "u < ?m" and w': "w < ?m" by simp_all
    from onto[OF u'] obtain j where j: "j < ?m" "u = node_at sol (Suc j)" by blast
    from onto[OF w'] obtain j' where j': "j' < ?m" "w = node_at sol (Suc j')" by blast
    have jj: "j \<noteq> j'" using ne j j' by auto
    have a: "?vi ! u = Suc j mod ?m" using rank[OF j(1)] j u' vlen by simp
    have b: "?vi ! w = Suc j' mod ?m" using rank[OF j'(1)] j' w' vlen by simp
    have "Suc j mod ?m \<noteq> Suc j' mod ?m"
    proof
      assume e: "Suc j mod ?m = Suc j' mod ?m"
      show False
      proof (cases "Suc j = ?m")
        case True
        then have "Suc j' mod ?m = 0" using e by simp
        then have "Suc j' = ?m" using j'(1) by (metis Suc_lessI Suc_eq_plus1 mod_less nat.distinct(1) Suc_leI le_neq_implies_less)
        then show False using True jj by simp
      next
        case False
        then have lj: "Suc j < ?m" using j(1) by simp
        show False
        proof (cases "Suc j' = ?m")
          case True
          then have "Suc j mod ?m = 0" using e by simp
          then show False using lj by simp
        next
          case False
          then have "Suc j' < ?m" using j'(1) by simp
          then show False using e lj jj by simp
        qed
      qed
    qed
    then show "?vi ! u \<noteq> ?vi ! w" using a b by simp
  qed
  show ?thesis
    using eq vlen bound dist r0 r1 by (intro exI conjI) (assumption | simp)+
qed

lemma valid_tour_120: "valid_tour 1 [1, 2, 0]"
  by (simp add: valid_tour_def is_permutation_def tour_order_def node_at_def upt_rec numeral_3_eq_3)

lemma position_embedding_120:
  "position_embedding topk2 [0::nat, 1, 2] [1, 2, 0] True =
     Inr ([0, 1, 2], [0, 1, 2], Some [(0, 1), (1, 0), (0, 1)])"
  by code_simp

theorem visit_index_cyclic_rank_witness:
  "valid_tour 1 [1, 2, 0] \<and>
   position_embedding topk2 [0::nat, 1, 2] [1, 2, 0] True =
     Inr ([0, 1, 2], [0, 1, 2], Some [(0, 1), (1, 0), (0, 1)]) \<and>
   distinct [0::nat, 1, 2] \<and> tour_order [1, 2, 0] = [1, 2, 0]"
proof -
  have t: "tour_order [1, 2, 0] = [1, 2, 0]" by code_simp
  have "length [0::nat, 1, 2] = 2 * 1 + 1" by simp
  from visit_index_cyclic_rank[OF valid_tour_120 this, of True topk2]
    valid_tour_120 position_embedding_120 t
  show ?thesis by simp
qed

text \<open>
  The claim as stated (values in \<open>1..2n+1\<close>, also for the depot) fails on the tour
  \<open>0 \<rightarrow> 1 \<rightarrow> 2 \<rightarrow> 0\<close>: the depot's returned visit index is \<open>0\<close>.
\<close>

theorem visit_index_range_counterexample:
  "valid_tour 1 [1, 2, 0] \<and>
   position_embedding topk2 [0::nat, 1, 2] [1, 2, 0] False = Inr ([0, 1, 2], [0, 1, 2], None) \<and>
   \<not> (\<forall>v\<in>set [0::nat, 1, 2]. 1 \<le> v \<and> v \<le> 2 * 1 + 1)"
proof -
  have "position_embedding topk2 [0::nat, 1, 2] [1, 2, 0] False = Inr ([0, 1, 2], [0, 1, 2], None)"
    by code_simp
  then show ?thesis using valid_tour_120 by simp
qed

section \<open>Stack simulation\<close>

text \<open>
  Claim C9.  Throughout the simulation (after any number \<open>k\<close> of iterations) on a valid
  tour with at least one request pair: the depot slot of \<open>stacks\<close> is \<open>0\<close>, the slot of
  every open pickup is strictly positive and the slot of every other pickup (closed or
  never opened) is strictly negative.  Hence the \<open>top2\<close> entry written for the \<open>j\<close>-th
  visited node holds index \<open>0\<close> exactly when fewer than two pickups are open after that
  visit, and its first component is the most recently opened open pickup whenever one
  exists.  This holds for every admissible tie-break of \<^verbatim>\<open>topk\<close>; the entries of the
  final state are the \<open>top2\<close> the function returns.
\<close>

theorem stack_simulation_invariant:
  assumes vt: "valid_tour n sol" and n: "1 \<le> n" and adm: "admissible_topk tk"
    and k: "k \<le> 2 * n + 1"
  shows "\<exists>s. position_loop tk True sol [0..<k] (initial_state sol) = Inr s \<and>
           stacks s ! 0 = 0 \<and>
           (\<forall>p. 1 \<le> p \<and> p \<le> n \<longrightarrow>
                (if p \<in> set (open_pickups n (take k (tour_order sol)))
                 then 0 < stacks s ! p else stacks s ! p < 0)) \<and>
           (\<forall>j<k. top2_entry_ok (open_pickups n (take (Suc j) (tour_order sol)))
                     (top2 s ! (tour_order sol ! j))) \<and>
           (k = 2 * n + 1 \<and> length pattern = 2 * n + 1 \<longrightarrow>
              (\<exists>emb vi. position_embedding tk pattern sol True = Inr (emb, vi, Some (top2 s))))"
proof -
  have len: "length sol = 2 * n + 1" using vt by (simp add: valid_tour_def)
  have cs: "True \<longrightarrow> 1 \<le> n" using n by simp
  from loop_invariant[OF vt cs k, of tk] adm obtain s where
    run: "position_loop tk True sol [0..<k] (initial_state sol) = Inr s"
    and si: "stk_inv n sol k s" by auto
  let ?ops = "open_pickups n (take k (tour_order sol))"
  from si have inv: "stack_inv n k (stacks s) ?ops" by (simp add: stk_inv_def)
  have z: "stacks s ! 0 = 0" using inv by (simp add: stack_inv_def)
  have sign: "if p \<in> set ?ops then 0 < stacks s ! p else stacks s ! p < 0"
    if "1 \<le> p \<and> p \<le> n" for p
  proof (cases "p \<in> set ?ops")
    case True
    then show ?thesis using inv by (simp add: stack_inv_def)
  next
    case False
    then have "stacks s ! p = - (1 / 100)" using inv that by (simp add: stack_inv_def)
    then show ?thesis using False by simp
  qed
  have ent: "top2_entry_ok (open_pickups n (take (Suc j) (tour_order sol)))
               (top2 s ! (tour_order sol ! j))" if "j < k" for j
  proof -
    have "j < length sol" using that k len by simp
    then show ?thesis using si that by (simp add: stk_inv_def tour_order_nth)
  qed
  have fin: "\<exists>emb vi. position_embedding tk pattern sol True = Inr (emb, vi, Some (top2 s))"
    if "k = 2 * n + 1 \<and> length pattern = 2 * n + 1"
    using run that len by (simp add: position_embedding_def Let_def)
  show ?thesis using run z sign ent fin by blast
qed

lemma valid_tour_12403: "valid_tour 2 [1, 2, 4, 0, 3]"
  by (simp add: valid_tour_def is_permutation_def tour_order_def node_at_def upt_rec
      eval_nat_numeral)

theorem stack_simulation_invariant_witness:
  "valid_tour 2 [1, 2, 4, 0, 3] \<and> admissible_topk topk2 \<and>
   position_loop topk2 True [1, 2, 4, 0, 3] [0..<5] (initial_state [1, 2, 4, 0, 3]) =
     Inr \<lparr>pre = 0, visit_index = [5, 1, 2, 4, 3], stacks = [0, - (1 / 100), - (1 / 100)],
          top2 = [(0, 1), (1, 0), (2, 1), (0, 1), (1, 0)]\<rparr> \<and>
   tour_order [1, 2, 4, 0, 3] = [1, 2, 4, 3, 0] \<and>
   open_pickups 2 (take 2 (tour_order [1, 2, 4, 0, 3])) = [2, 1] \<and>
   open_pickups 2 (take 3 (tour_order [1, 2, 4, 0, 3])) = [1] \<and>
   open_pickups 2 (take 4 (tour_order [1, 2, 4, 0, 3])) = []"
proof -
  have run: "position_loop topk2 True [1, 2, 4, 0, 3] [0..<5] (initial_state [1, 2, 4, 0, 3]) =
     Inr \<lparr>pre = 0, visit_index = [5, 1, 2, 4, 3], stacks = [0, - (1 / 100), - (1 / 100)],
          top2 = [(0, 1), (1, 0), (2, 1), (0, 1), (1, 0)]\<rparr>"
    by code_simp
  have t: "tour_order [1, 2, 4, 0, 3] = [1, 2, 4, 3, 0]" by code_simp
  have o2: "open_pickups 2 (take 2 [1, 2, 4, 3, 0]) = [2, 1]" by code_simp
  have o3: "open_pickups 2 (take 3 [1, 2, 4, 3, 0]) = [1]" by code_simp
  have o4: "open_pickups 2 (take 4 [1, 2, 4, 3, 0]) = []" by code_simp
  have n: "(1::nat) \<le> 2" and k: "(5::nat) \<le> 2 * 2 + 1" by simp_all
  from stack_simulation_invariant[OF valid_tour_12403 n topk2_admissible k]
    valid_tour_12403 topk2_admissible run t o2 o3 o4
  show ?thesis by simp
qed

section \<open>The decoder step: auxiliary facts\<close>

lemma pbind_Inl [simp]: "pbind (Inl e) f = Inl e"
  by (simp add: pbind_def)

lemma pbind_Inr [simp]: "pbind (Inr x) f = f x"
  by (simp add: pbind_def)

lemma pbind_eq_Inr: "pbind r f = Inr y \<longleftrightarrow> (\<exists>x. r = Inr x \<and> f x = Inr y)"
  by (cases r) simp_all

lemma collect_eq_Inr: "collect rs = Inr xs \<longleftrightarrow> rs = map Inr xs"
proof (induction rs arbitrary: xs)
  case Nil
  then show ?case by auto
next
  case (Cons r rs)
  show ?case
  proof (cases r)
    case (Inl e)
    then show ?thesis by (cases xs) auto
  next
    case (Inr x)
    show ?thesis
    proof (cases "collect rs")
      case (Inl e)
      then have "\<forall>ys. rs \<noteq> map Inr ys" using Cons.IH by auto
      then show ?thesis using Inl Inr by (cases xs) auto
    next
      case r2: (Inr ys)
      then have "rs = map Inr ys" using Cons.IH by simp
      then show ?thesis using r2 Inr by (cases xs) (auto simp: inj_map_eq_map)
    qed
  qed
qed

lemma collect_map_upt:
  "collect (map g [0..<B]) = Inr xs \<longleftrightarrow> (length xs = B \<and> (\<forall>b<B. g b = Inr (xs ! b)))"
proof -
  have "map g [0..<B] = map Inr xs \<longleftrightarrow> (length xs = B \<and> (\<forall>b<B. g b = Inr (xs ! b)))"
    by (auto simp: list_eq_iff_nth_eq)
  then show ?thesis by (simp add: collect_eq_Inr)
qed



lemma fold_max_in: "fold max xs (a::real) \<in> insert a (set xs)"
  by (induction xs arbitrary: a) (auto simp: max_def)


lemma max_list_in: "xs \<noteq> [] \<Longrightarrow> max_list xs \<in> set xs"
  using fold_max_in[of xs "hd xs"] by (cases xs) (auto simp: max_list_def)

lemma exp32_nonneg: "0 \<le> exp32 x"
  by (simp add: exp32_def)

lemma exp32_0: "exp32 0 = 1"
  by (simp add: exp32_def)

lemma real_elem_le_sum_list:
  "x \<in> set xs \<Longrightarrow> \<forall>y\<in>set xs. (0::real) \<le> y \<Longrightarrow> x \<le> sum_list xs"
proof (induction xs)
  case Nil
  then show ?case by simp
next
  case (Cons y ys)
  have nn: "0 \<le> sum_list ys" using Cons.prems(2) by (intro sum_list_nonneg) simp
  show ?case
  proof (cases "x = y")
    case True
    then show ?thesis using nn by simp
  next
    case False
    then have "x \<le> sum_list ys" using Cons by simp
    then show ?thesis using Cons.prems(2) by simp
  qed
qed

lemma sum_list_exp32_ge1:
  assumes "xs \<noteq> []"
  shows "1 \<le> sum_list (map (\<lambda>x. exp32 (x - max_list xs)) xs)"
proof -
  have "max_list xs \<in> set xs" by (rule max_list_in[OF assms])
  then have "exp32 (max_list xs - max_list xs) \<in> set (map (\<lambda>x. exp32 (x - max_list xs)) xs)"
    unfolding set_map by (rule image_eqI[where x = "max_list xs", OF refl])
  then have "exp32 (max_list xs - max_list xs) \<le> sum_list (map (\<lambda>x. exp32 (x - max_list xs)) xs)"
    by (rule real_elem_le_sum_list) (auto simp: exp32_nonneg)
  then show ?thesis by (simp add: exp32_0)
qed

lemma softmax_length [simp]: "length (softmax xs) = length xs"
  by (simp add: softmax_def Let_def)

lemma softmax_nth:
  "i < length xs \<Longrightarrow>
   softmax xs ! i = exp32 (xs ! i - max_list xs) / sum_list (map (\<lambda>x. exp32 (x - max_list xs)) xs)"
  by (simp add: softmax_def Let_def)

lemma softmax_nonneg: "p \<in> set (softmax xs) \<Longrightarrow> 0 \<le> p"
proof -
  assume "p \<in> set (softmax xs)"
  then obtain i where i: "i < length xs" "p = softmax xs ! i"
    by (auto simp: in_set_conv_nth)
  then have ne: "xs \<noteq> []" by auto
  have "0 < sum_list (map (\<lambda>x. exp32 (x - max_list xs)) xs)"
    using sum_list_exp32_ge1[OF ne] by simp
  then show ?thesis using i by (simp add: softmax_nth exp32_nonneg)
qed

lemma sum_list_divide: "(\<Sum>e\<leftarrow>es. e / (s::real)) = sum_list es / s"
  by (induction es) (simp_all add: add_divide_distrib)

lemma softmax_sum: "xs \<noteq> [] \<Longrightarrow> sum_list (softmax xs) = 1"
proof -
  assume ne: "xs \<noteq> []"
  let ?es = "map (\<lambda>x. exp32 (x - max_list xs)) xs"
  have pos: "0 < sum_list ?es" using sum_list_exp32_ge1[OF ne] by simp
  have "sum_list (softmax xs) = (\<Sum>e\<leftarrow>?es. e / sum_list ?es)"
    by (simp add: softmax_def Let_def)
  also have "\<dots> = sum_list ?es / sum_list ?es" by (rule sum_list_divide)
  also have "\<dots> = 1" using pos by simp
  finally show ?thesis .
qed




lemma multinomial_softmax_ok:
  assumes "xs \<noteq> []"
  shows "\<exists>i. multinomial (softmax xs) u = Inr i"
  using softmax_sum[OF assms] softmax_nonneg[of _ xs]
  by (auto simp: multinomial_def not_less[symmetric])

lemma div_mod_block:
  assumes "j < (k::nat)"
  shows "(b * k + j) div k = b" "(b * k + j) mod k = j"
  using assms by simp_all

lemma flat_tensor2: "j < k \<Longrightarrow> flat (tensor2 B k f) (b * k + j) = f b j"
  by (simp add: tensor2_def)

lemma row_at_tensor2: "row_at (tensor2 B k f) k b = map (f b) [0..<k]"
  by (simp add: row_at_def flat_tensor2)


lemma index_cell:
  assumes "i < (m::nat) * m"
  shows "i div m < m" "i mod m < m" "(i div m) * m + i mod m = i"
proof -
  have m: "0 < m" using assms by (cases m) auto
  show "i div m < m" using assms by (simp add: less_mult_imp_div_less)
  show "i mod m < m" using m by simp
  show "(i div m) * m + i mod m = i" by simp
qed

lemma flat_tensor3:
  assumes "i < m * m"
  shows "flat (tensor3 B m m f) (b * (m * m) + i) = f b (i div m) (i mod m)"
proof -
  have m: "0 < m" using assms by (cases m) auto
  have a: "(b * (m * m) + i) div (m * m) = b" using div_mod_block(1)[OF assms] .
  have "(b * (m * m) + i) div m = b * m + i div m"
    using m by (metis add.commute div_mult_self1 less_numeral_extra(3) mult.assoc mult.commute)
  then have b: "((b * (m * m) + i) div m) mod m = i div m"
    using index_cell(1)[OF assms] by simp
  have c: "(b * (m * m) + i) mod m = i mod m"
    by (metis mod_mult_self3 mult.assoc mult.commute)
  show ?thesis by (simp add: tensor3_def a b c)
qed

lemma squeeze_flat [simp]: "flat (squeeze t) = flat t"
  by (simp add: squeeze_def)

lemma squeeze_shape: "shape (squeeze t) = filter (\<lambda>d. d \<noteq> 1) (shape t)"
  by (simp add: squeeze_def)

lemma tensor_map_flat [simp]: "flat (tensor_map g t) i = g (flat t i)"
  by (simp add: tensor_map_def)

lemma tensor_map_shape [simp]: "shape (tensor_map g t) = shape t"
  by (simp add: tensor_map_def)

lemma shape_squeeze3:
  "shape (squeeze (tensor3 B m m f)) = [B, m, m] \<longleftrightarrow> B \<noteq> 1 \<and> m \<noteq> 1"
  by (auto simp: squeeze_shape tensor3_def)

lemma shape_squeeze2:
  "shape (squeeze (squeeze (tensor2 B n f))) =
     (if B = 1 then (if n = 1 then [] else [n]) else if n = 1 then [B] else [B, n])"
  by (auto simp: squeeze_shape tensor2_def)

lemma row_at_along_last:
  assumes "shape t \<noteq> []" "last (shape t) = k" "length (g (row_at t k b)) = k"
  shows "row_at (along_last g t) k b = g (row_at t k b)"
proof -
  have "row_at (along_last g t) k b = map (\<lambda>j. g (row_at t k b) ! j) [0..<k]"
    using assms(1,2) by (simp add: row_at_def along_last_def Let_def)
  also have "\<dots> = g (row_at t k b)" using assms(3) by (metis map_nth)
  finally show ?thesis .
qed

lemma row_at_length [simp]: "length (row_at t k b) = k"
  by (simp add: row_at_def)

lemma row_at_nth: "j < k \<Longrightarrow> row_at t k b ! j = flat t (b * k + j)"
  by (simp add: row_at_def)

lemma log_softmax_length [simp]: "length (log_softmax xs) = length xs"
  by (simp add: log_softmax_def Let_def)

lemma masked_fill_rows:
  assumes sh: "shape t = [B, m, m]"
    and fl: "\<And>b i. i < m * m \<Longrightarrow> flat t (b * (m * m) + i) = base b (i div m) (i mod m)"
  shows "\<exists>t'. masked_fill t B m msk = Inr t' \<and>
           map (row_at t' (m * m)) [0..<B] =
             map (\<lambda>b. map (\<lambda>i. if msk b (i div m) (i mod m) then masked_logit
                                 else base b (i div m) (i mod m)) [0..<m * m]) [0..<B]"
proof -
  let ?t' = "t\<lparr>flat := (\<lambda>i. if msk (i div (m * m)) ((i div m) mod m) (i mod m)
                                then masked_logit else flat t i)\<rparr>"
  have eq: "masked_fill t B m msk = Inr ?t'" using sh by (simp add: masked_fill_def)
  have cell: "flat ?t' (b * (m * m) + i) =
                (if msk b (i div m) (i mod m) then masked_logit else base b (i div m) (i mod m))"
    if "i < m * m" for b i
  proof -
    have "flat (tensor3 B m m msk) (b * (m * m) + i) = msk b (i div m) (i mod m)"
      by (rule flat_tensor3[OF that])
    then have "msk ((b * (m * m) + i) div (m * m)) (((b * (m * m) + i) div m) mod m)
                 ((b * (m * m) + i) mod m) = msk b (i div m) (i mod m)"
      by (simp add: tensor3_def)
    then show ?thesis using fl[OF that] by simp
  qed
  have "row_at ?t' (m * m) b =
          map (\<lambda>i. if msk b (i div m) (i mod m) then masked_logit
                    else base b (i div m) (i mod m)) [0..<m * m]" for b
    unfolding row_at_def by (rule map_cong[OF refl]) (use cell in auto)
  then show ?thesis using eq by (intro exI[of _ ?t']) simp
qed

lemma masked_fill_shape: "masked_fill t B m msk = Inr t' \<Longrightarrow> shape t = [B, m, m]"
  by (auto simp: masked_fill_def split: if_splits)

lemma reinsertion_logits_NNS:
  assumes "TYPE_REINSERTION cfg = NNS"
  shows "reinsertion_logits cfg inp A =
     (if (\<exists>p\<in>set (map (\<lambda>a. 1 + a) (to_list A)). graph_size_plus1 inp \<le> p) \<or>
         (\<exists>p\<in>set (map (\<lambda>p. p + half_pos inp) (map (\<lambda>a. 1 + a) (to_list A))). graph_size_plus1 inp \<le> p) \<or>
         batch_size inp = 1 \<or> graph_size_plus1 inp = 1
      then Inl IndexError
      else Inr (logit_rows inp A (nns_base inp A)))"
proof -
  let ?B = "batch_size inp" and ?m = "graph_size_plus1 inp"
  let ?pp = "map (\<lambda>a. 1 + a) (to_list A)"
  let ?pd = "map (\<lambda>p. p + half_pos inp) ?pp"
  let ?t = "tensor_map (\<lambda>x. tanh x * v_range inp) (squeeze (tensor3 ?B ?m ?m (compater_reinsertion inp ?pp)))"
  show ?thesis
  proof (cases "(\<exists>p\<in>set ?pp. ?m \<le> p) \<or> (\<exists>p\<in>set ?pd. ?m \<le> p)")
    case True
    then have "action_reinsertion_table cfg inp A = Inl IndexError"
      using assms by (simp add: action_reinsertion_table_def Let_def)
    then show ?thesis using True by (auto simp: reinsertion_logits_def Let_def)
  next
    case False
    then have tab: "action_reinsertion_table cfg inp A = Inr ?t"
      using assms by (simp add: action_reinsertion_table_def Let_def)
    show ?thesis
    proof (cases "?B = 1 \<or> ?m = 1")
      case True
      then have "shape ?t \<noteq> [?B, ?m, ?m]" by (auto simp: shape_squeeze3)
      then have "masked_fill ?t ?B ?m (mask_table inp A) = Inl IndexError"
        by (simp add: masked_fill_def)
      then show ?thesis using tab True False by (auto simp: reinsertion_logits_def Let_def)
    next
      case nd: False
      then have sh: "shape ?t = [?B, ?m, ?m]" by (auto simp: shape_squeeze3)
      have fl: "flat ?t (b * (?m * ?m) + i) = nns_base inp A b (i div ?m) (i mod ?m)"
        if "i < ?m * ?m" for b i
        by (simp add: nns_base_def flat_tensor3[OF that])
      from masked_fill_rows[OF sh fl, of "mask_table inp A"] obtain t' where
        "masked_fill ?t ?B ?m (mask_table inp A) = Inr t'"
        "map (row_at t' (?m * ?m)) [0..<?B] = logit_rows inp A (nns_base inp A)"
        by (auto simp: logit_rows_def)
      then show ?thesis using tab nd False by (auto simp: reinsertion_logits_def Let_def)
    qed
  qed
qed

lemma reinsertion_logits_Random:
  assumes "TYPE_REINSERTION cfg = Random"
  shows "reinsertion_logits cfg inp A = Inr (logit_rows inp A (\<lambda>b p d. 1))"
proof -
  let ?B = "batch_size inp" and ?m = "graph_size_plus1 inp"
  let ?t = "tensor3 ?B ?m ?m (\<lambda>b p d. 1::real)"
  have tab: "action_reinsertion_table cfg inp A = Inr ?t"
    using assms by (simp add: action_reinsertion_table_def Let_def)
  have sh: "shape ?t = [?B, ?m, ?m]" by (simp add: tensor3_def)
  have fl: "flat ?t (b * (?m * ?m) + i) = (\<lambda>b p d. 1) b (i div ?m) (i mod ?m)"
    if "i < ?m * ?m" for b i
    by (simp add: tensor3_def)
  from masked_fill_rows[OF sh fl, of "mask_table inp A"] obtain t' where
    "masked_fill ?t ?B ?m (mask_table inp A) = Inr t'"
    "map (row_at t' (?m * ?m)) [0..<?B] = logit_rows inp A (\<lambda>b p d. 1)"
    by (auto simp: logit_rows_def)
  then show ?thesis using tab by (simp add: reinsertion_logits_def Let_def)
qed



lemma logit_rows_length: "length (logit_rows inp A base) = batch_size inp"
  by (simp add: logit_rows_def)

lemma logit_rows_row_length:
  "b < batch_size inp \<Longrightarrow> length (logit_rows inp A base ! b) = graph_size_plus1 inp * graph_size_plus1 inp"
  by (simp add: logit_rows_def)


lemma forward_Inr:
  "NNSDecoder_forward cfg inp = Inr (action, log_ll, ent) \<longleftrightarrow>
     (\<exists>A ll1 logits idx ll2.
        select_removal cfg inp = Inr (A, ll1) \<and>
        reinsertion_logits cfg inp A = Inr logits \<and>
        select_pair_index cfg inp A logits = Inr idx \<and>
        assemble_action inp A idx = Inr action \<and>
        selected_log_ll_action2 cfg inp logits idx = Inr ll2 \<and>
        log_ll = map (\<lambda>b. ll1 ! b + ll2 ! b) [0..<batch_size inp] \<and>
        ent = (if require_entropy inp \<and> training inp
               then Some (map (\<lambda>l. entropy_of (softmax l)) logits) else None))"
  by (auto simp: NNSDecoder_forward_def pbind_eq_Inr Let_def split: prod.splits)

lemma to_list_column: "to_list (column B f) = map f [0..<B]"
  by (simp add: to_list_def column_def numel_def)

lemma select_removal_fixed:
  assumes "select_removal cfg inp = Inr (A, ll1)" "fixed_action inp = Some fa"
  shows "A = column (batch_size inp) (\<lambda>b. fst (fa b))"
  using assms
  by (cases "TYPE_REMOVAL cfg")
     (auto simp: select_removal_def Let_def pbind_eq_Inr split: if_splits)

lemma assemble_action_cases:
  assumes "assemble_action inp A idx = Inr action"
  shows "length action = batch_size inp"
    and "fixed_action inp = Some fa \<Longrightarrow> action = map fa [0..<batch_size inp]"
    and "fixed_action inp = None \<Longrightarrow>
           numel A = batch_size inp \<and>
           action = map (\<lambda>b. (flat A b, (idx ! b) div graph_size_plus1 inp,
                               (idx ! b) mod graph_size_plus1 inp)) [0..<batch_size inp]"
  using assms
  by (auto simp: assemble_action_def Let_def split: option.splits if_splits)

lemma action_fst:
  assumes sr: "select_removal cfg inp = Inr (A, ll1)"
    and aa: "assemble_action inp A idx = Inr action"
  shows "to_list A = map fst action"
proof (cases "fixed_action inp")
  case None
  from assemble_action_cases(3)[OF aa None]
  show ?thesis by (simp add: to_list_def o_def)
next
  case (Some fa)
  from select_removal_fixed[OF sr Some] assemble_action_cases(2)[OF aa Some]
  show ?thesis by (simp add: to_list_column o_def)
qed





section \<open>Reinsertion respects the mask\<close>


lemma half_graph [simp]: "graph_size_plus1 inp div 2 = n_pairs inp"
  by (simp add: graph_size_plus1_def)

lemma action_removal_table_shape:
  assumes "action_removal_table inp = Inr table"
  shows "shape table =
     (if batch_size inp = 1 then (if n_pairs inp = 1 then [] else [n_pairs inp])
      else if n_pairs inp = 1 then [batch_size inp] else [batch_size inp, n_pairs inp])"
proof -
  let ?t = "tensor_map (\<lambda>x. tanh x * v_range inp)
              (squeeze (squeeze (tensor2 (batch_size inp) (n_pairs inp) (compater_removal inp))))"
  have st: "shape ?t =
     (if batch_size inp = 1 then (if n_pairs inp = 1 then [] else [n_pairs inp])
      else if n_pairs inp = 1 then [batch_size inp] else [batch_size inp, n_pairs inp])"
    by (simp add: shape_squeeze2)
  have "shape table = shape ?t"
    using assms
    by (auto simp: action_removal_table_def Let_def index_put2_def
        split: option.splits if_splits list.splits)
  then show ?thesis using st by simp
qed

lemma action_removal_table_rows:
  assumes ok: "action_removal_table inp = Inr table"
    and r2: "batch_size inp \<noteq> 1" "n_pairs inp \<noteq> 1" and b: "b < batch_size inp"
  shows "row_at table (n_pairs inp) b = removal_row inp b"
proof -
  let ?B = "batch_size inp" and ?n = "n_pairs inp"
  let ?t = "tensor_map (\<lambda>x. tanh x * v_range inp)
              (squeeze (squeeze (tensor2 ?B ?n (compater_removal inp))))"
  have base: "flat ?t (b * ?n + k) = tanh (compater_removal inp b k) * v_range inp" if "k < ?n" for k
    using that by (simp add: flat_tensor2)
  have sh: "shape ?t = [?B, ?n]" using r2 by (simp add: shape_squeeze2)
  show ?thesis
  proof (cases "pre_action inp")
    case None
    then have "table = ?t" using ok by (simp add: action_removal_table_def Let_def)
    then show ?thesis using None base by (simp add: row_at_def removal_row_def)
  next
    case (Some prev)
    show ?thesis
    proof (cases "0 < fst (prev 0)")
      case False
      then have "table = ?t" using ok Some
        by (simp add: action_removal_table_def Let_def split: if_splits)
      then show ?thesis using Some False base by (simp add: row_at_def removal_row_def)
    next
      case True
      then have ip: "index_put2 ?t ?B (\<lambda>b. fst (prev b)) masked_logit = Inr table"
        using ok Some by (simp add: action_removal_table_def Let_def split: if_splits)
      then have tab: "table = ?t\<lparr>flat := (\<lambda>i. if i div ?n < ?B \<and> i mod ?n = fst (prev (i div ?n))
                                             then masked_logit else flat ?t i)\<rparr>"
        using sh by (simp add: index_put2_def split: if_splits)
      have "flat table (b * ?n + k) =
              (if k = fst (prev b) then masked_logit else tanh (compater_removal inp b k) * v_range inp)"
        if "k < ?n" for k
        using that b base[OF that] div_mod_block[OF that, of b] by (simp add: tab)
      then show ?thesis using Some True by (simp add: row_at_def removal_row_def)
    qed
  qed
qed


lemma along_last_shape [simp]: "shape (along_last g t) = shape t"
  by (simp add: along_last_def Let_def)

lemma row_at_softmax:
  assumes "shape t = [B, k]"
  shows "row_at (along_last softmax t) k b = softmax (row_at t k b)"
  by (rule row_at_along_last) (use assms in simp_all)

lemma row_at_log_softmax:
  assumes "shape t = [B, k]"
  shows "row_at (along_last log_softmax t) k b = log_softmax (row_at t k b)"
  by (rule row_at_along_last) (use assms in simp_all)

lemma gather1_Inr:
  assumes "gather1 t index B = Inr xs"
  shows "length (shape t) = 2 \<and> length xs = B \<and>
         (\<forall>b<B. flat index b < shape t ! 1 \<and> xs ! b = row_at t (shape t ! 1) b ! flat index b)"
  using assms
  by (auto simp: gather1_def Let_def row_at_nth not_le split: if_splits)

lemma select_removal_ll1:
  assumes sr: "select_removal cfg inp = Inr (A, ll1)"
  shows "length ll1 = batch_size inp"
    and "\<not> (training inp \<and> TYPE_REMOVAL cfg = NNS) \<Longrightarrow> b < batch_size inp \<Longrightarrow> ll1 ! b = 0"
    and "training inp \<and> TYPE_REMOVAL cfg = NNS \<Longrightarrow> b < batch_size inp \<Longrightarrow>
           ll1 ! b = removal_log_prob inp b (flat A b)"
proof -
  let ?B = "batch_size inp"
  have a: "length ll1 = ?B \<and>
           (\<not> (training inp \<and> TYPE_REMOVAL cfg = NNS) \<longrightarrow> ll1 = replicate ?B 0) \<and>
           (training inp \<and> TYPE_REMOVAL cfg = NNS \<longrightarrow>
              (\<forall>b<?B. ll1 ! b = removal_log_prob inp b (flat A b)))"
  proof (cases "TYPE_REMOVAL cfg")
    case Random
    then show ?thesis using sr by (auto simp: select_removal_def Let_def pbind_eq_Inr)
  next
    case Greedy
    then show ?thesis using sr by (auto simp: select_removal_def Let_def pbind_eq_Inr)
  next
    case NNS
    from sr NNS obtain table where
      tab: "action_removal_table inp = Inr table"
      and g: "(if training inp then gather1 (along_last log_softmax table) A ?B
               else Inr (replicate ?B 0)) = Inr ll1"
      by (auto simp: select_removal_def Let_def pbind_eq_Inr)
    show ?thesis
    proof (cases "training inp")
      case False
      then show ?thesis using g by auto
    next
      case True
      then have ga: "gather1 (along_last log_softmax table) A ?B = Inr ll1" using g by simp
      from gather1_Inr[OF ga] have r: "length (shape table) = 2" and len: "length ll1 = ?B"
        and el: "\<forall>b<?B. ll1 ! b = row_at (along_last log_softmax table) (shape table ! 1) b ! flat A b"
        by simp_all
      from action_removal_table_shape[OF tab] r have sh: "shape table = [?B, n_pairs inp]"
        by (auto split: if_splits)
      have "ll1 ! b = removal_log_prob inp b (flat A b)" if "b < ?B" for b
        using el that sh tab by (simp add: row_at_log_softmax[OF sh] removal_log_prob_def)
      then show ?thesis using len True NNS by simp
    qed
  qed
  show "length ll1 = ?B" using a by simp
  show "\<not> (training inp \<and> TYPE_REMOVAL cfg = NNS) \<Longrightarrow> b < ?B \<Longrightarrow> ll1 ! b = 0" using a by auto
  show "training inp \<and> TYPE_REMOVAL cfg = NNS \<Longrightarrow> b < ?B \<Longrightarrow>
          ll1 ! b = removal_log_prob inp b (flat A b)" using a by blast
qed

lemma selected_log_ll_action2_Inr:
  assumes "selected_log_ll_action2 cfg inp logits idx = Inr ll2" "b < batch_size inp"
  shows "ll2 ! b = (if training inp \<and> TYPE_REINSERTION cfg = NNS
                    then log_softmax (logits ! b) ! (idx ! b) else 0)"
  using assms by (auto simp: selected_log_ll_action2_def Let_def split: if_splits)

lemma pair_index_of_action:
  assumes sp: "select_pair_index cfg inp A logits = Inr idx"
    and aa: "assemble_action inp A idx = Inr action" and b: "b < batch_size inp"
  shows "idx ! b = fst (snd (action ! b)) * graph_size_plus1 inp + snd (snd (action ! b))"
proof (cases "fixed_action inp")
  case None
  from assemble_action_cases(3)[OF aa None] b show ?thesis by simp
next
  case (Some fa)
  have "idx ! b = fst (snd (fa b)) * graph_size_plus1 inp + snd (snd (fa b))"
    using sp Some b by (auto simp: select_pair_index_def Let_def)
  then show ?thesis using assemble_action_cases(2)[OF aa Some] b by simp
qed

lemma flat_of_action:
  assumes sr: "select_removal cfg inp = Inr (A, ll1)"
    and aa: "assemble_action inp A idx = Inr action" and b: "b < batch_size inp"
  shows "flat A b = fst (action ! b)"
proof (cases "fixed_action inp")
  case None
  from assemble_action_cases(3)[OF aa None] b show ?thesis by simp
next
  case (Some fa)
  from select_removal_fixed[OF sr Some] assemble_action_cases(2)[OF aa Some] b
  show ?thesis by (simp add: column_def)
qed

lemma forward_log_ll:
  assumes ok: "NNSDecoder_forward cfg inp = Inr (action, log_ll, ent)"
  shows "\<exists>A ll1 logits.
           select_removal cfg inp = Inr (A, ll1) \<and> reinsertion_logits cfg inp A = Inr logits \<and>
           to_list A = map fst action \<and> length log_ll = batch_size inp \<and>
           (\<forall>b<batch_size inp.
              log_ll ! b =
                (if training inp \<and> TYPE_REMOVAL cfg = NNS
                 then removal_log_prob inp b (fst (action ! b)) else 0) +
                (if training inp \<and> TYPE_REINSERTION cfg = NNS
                 then log_softmax (logits ! b) !
                        (fst (snd (action ! b)) * graph_size_plus1 inp + snd (snd (action ! b)))
                 else 0))"
proof -
  let ?B = "batch_size inp"
  from ok obtain A ll1 logits idx ll2 where
    sr: "select_removal cfg inp = Inr (A, ll1)" and rl: "reinsertion_logits cfg inp A = Inr logits"
    and sp: "select_pair_index cfg inp A logits = Inr idx"
    and aa: "assemble_action inp A idx = Inr action"
    and l2: "selected_log_ll_action2 cfg inp logits idx = Inr ll2"
    and ll: "log_ll = map (\<lambda>b. ll1 ! b + ll2 ! b) [0..<?B]"
    unfolding forward_Inr by blast
  have t1: "ll1 ! b = (if training inp \<and> TYPE_REMOVAL cfg = NNS
                       then removal_log_prob inp b (fst (action ! b)) else 0)" if "b < ?B" for b
    using select_removal_ll1(2,3)[OF sr, of b] flat_of_action[OF sr aa that] that by auto
  have t2: "ll2 ! b = (if training inp \<and> TYPE_REINSERTION cfg = NNS
                       then log_softmax (logits ! b) !
                              (fst (snd (action ! b)) * graph_size_plus1 inp + snd (snd (action ! b)))
                       else 0)" if "b < ?B" for b
    using selected_log_ll_action2_Inr[OF l2 that] pair_index_of_action[OF sp aa that] by simp
  show ?thesis
    using sr rl action_fst[OF sr aa] ll t1 t2
    by (intro exI[of _ A] exI[of _ ll1] exI[of _ logits]) simp
qed

lemma softmax_eq_Nil [simp]: "softmax xs = [] \<longleftrightarrow> xs = []"
  using softmax_length[of xs] by (metis length_0_conv)

lemma inverse_cdf_less: "ps \<noteq> [] \<Longrightarrow> inverse_cdf ps t < length ps"
proof (induction ps arbitrary: t)
  case Nil
  then show ?case by simp
next
  case (Cons p ps)
  then show ?case by (cases "ps = []") auto
qed

lemma multinomial_softmax:
  assumes "xs \<noteq> []"
  shows "multinomial (softmax xs) u = Inr (inverse_cdf (softmax xs) u)"
proof -
  have "\<not> (\<exists>p\<in>set (softmax xs). p < 0)" using softmax_nonneg[of _ xs] by (auto simp: not_less)
  then show ?thesis using softmax_sum[OF assms] by (simp add: multinomial_def)
qed

lemma removal_row_length [simp]: "length (removal_row inp b) = n_pairs inp"
  by (simp add: removal_row_def)

lemma action_removal_table_total:
  assumes "2 \<le> batch_size inp" "2 \<le> n_pairs inp" "pre_action_ok inp"
  shows "\<exists>table. action_removal_table inp = Inr table"
proof -
  let ?B = "batch_size inp" and ?n = "n_pairs inp"
  let ?t = "tensor_map (\<lambda>x. tanh x * v_range inp)
              (squeeze (squeeze (tensor2 ?B ?n (compater_removal inp))))"
  have sh: "shape ?t = [?B, ?n]" using assms(1,2) by (simp add: shape_squeeze2)
  show ?thesis
  proof (cases "pre_action inp")
    case None
    then show ?thesis by (simp add: action_removal_table_def Let_def)
  next
    case (Some prev)
    then have "\<forall>b<?B. fst (prev b) < ?n" using assms(3) by (simp add: pre_action_ok_def)
    then have "\<exists>t'. index_put2 ?t ?B (\<lambda>b. fst (prev b)) masked_logit = Inr t'"
      using sh by (auto simp: index_put2_def not_le)
    then show ?thesis using Some assms(1) by (auto simp: action_removal_table_def Let_def)
  qed
qed

lemma sample_removal_less:
  assumes "2 \<le> n_pairs inp"
  shows "sample_removal inp b < n_pairs inp"
proof -
  have "removal_row inp b \<noteq> []" using assms by (auto simp: removal_row_def)
  then have "softmax (removal_row inp b) \<noteq> []" by simp
  from inverse_cdf_less[OF this] show ?thesis by (simp add: sample_removal_def)
qed

lemma select_removal_NNS_sampled:
  assumes rem: "TYPE_REMOVAL cfg = NNS" and fx: "fixed_action inp = None"
    and B: "2 \<le> batch_size inp" and n: "2 \<le> n_pairs inp" and pa: "pre_action_ok inp"
  shows "select_removal cfg inp =
           Inr (sampled_removal inp,
                map (\<lambda>b. if training inp
                          then log_softmax (removal_row inp b) ! sample_removal inp b else 0)
                    [0..<batch_size inp])"
proof -
  let ?B = "batch_size inp" and ?n = "n_pairs inp"
  from action_removal_table_total[OF B n pa] obtain table where
    tab: "action_removal_table inp = Inr table" by blast
  have sh: "shape table = [?B, ?n]" using action_removal_table_shape[OF tab] B n by simp
  have rows: "row_at table ?n b = removal_row inp b" if "b < ?B" for b
    using action_removal_table_rows[OF tab _ _ that] B n by simp
  have ne: "removal_row inp b \<noteq> []" for b using n by (auto simp: removal_row_def)
  have mu: "multinomial (row_at (along_last softmax table) ?n b) (u_removal inp b) =
              Inr (sample_removal inp b)" if "b < ?B" for b
    using rows[OF that] multinomial_softmax[OF ne]
    by (simp add: row_at_softmax[OF sh] sample_removal_def)
  have col: "collect (map (\<lambda>b. multinomial (row_at (along_last softmax table) ?n b) (u_removal inp b))
                        [0..<?B]) = Inr (map (sample_removal inp) [0..<?B])"
    using mu by (simp add: collect_map_upt)
  have mt: "multinomial_t (along_last softmax table) (u_removal inp) = Inr (sampled_removal inp)"
    using col sh by (simp add: multinomial_t_def sampled_removal_def)
  have fl: "flat (sampled_removal inp) b = sample_removal inp b" if "b < ?B" for b
    using that by (simp add: sampled_removal_def)
  have ga: "gather1 (along_last log_softmax table) (sampled_removal inp) ?B =
              Inr (map (\<lambda>b. log_softmax (removal_row inp b) ! sample_removal inp b) [0..<?B])"
  proof -
    have in_range: "\<not> (\<exists>b\<in>set [0..<?B]. ?n \<le> flat (sampled_removal inp) b)"
      using fl sample_removal_less[OF n] by (auto simp: not_le)
    have el: "flat (along_last log_softmax table) (b * ?n + flat (sampled_removal inp) b) =
                log_softmax (removal_row inp b) ! sample_removal inp b" if "b < ?B" for b
    proof -
      have "row_at (along_last log_softmax table) ?n b ! sample_removal inp b =
              flat (along_last log_softmax table) (b * ?n + sample_removal inp b)"
        by (rule row_at_nth[OF sample_removal_less[OF n]])
      then show ?thesis using fl[OF that] rows[OF that] by (simp add: row_at_log_softmax[OF sh])
    qed
    have "gather1 (along_last log_softmax table) (sampled_removal inp) ?B =
            Inr (map (\<lambda>b. flat (along_last log_softmax table)
                             (b * ?n + flat (sampled_removal inp) b)) [0..<?B])"
      using in_range sh unfolding gather1_def Let_def
      by (simp add: sampled_removal_def)
    also have "map (\<lambda>b. flat (along_last log_softmax table)
                             (b * ?n + flat (sampled_removal inp) b)) [0..<?B] =
               map (\<lambda>b. log_softmax (removal_row inp b) ! sample_removal inp b) [0..<?B]"
      by (rule map_cong[OF refl]) (use el in auto)
    finally show ?thesis .
  qed
  show ?thesis
  proof (cases "training inp")
    case True
    then show ?thesis using rem fx tab mt ga by (simp add: select_removal_def Let_def)
  next
    case False
    have "replicate ?B (0::real) = map (\<lambda>b. 0) [0..<?B]" by (simp add: map_replicate_const)
    then show ?thesis using False rem fx tab mt by (simp add: select_removal_def Let_def)
  qed
qed

lemma to_list_sampled_removal:
  "to_list (sampled_removal inp) = map (sample_removal inp) [0..<batch_size inp]"
  by (simp add: to_list_def sampled_removal_def numel_def map_nth)

lemma reinsertion_logits_regular:
  assumes ng: "TYPE_REINSERTION cfg \<noteq> Greedy"
    and B: "2 \<le> batch_size inp" and n: "2 \<le> n_pairs inp"
    and sel: "\<forall>a\<in>set (to_list A). a < n_pairs inp"
  shows "reinsertion_logits cfg inp A = Inr (logit_rows inp A (base_logits cfg inp A))"
proof (cases "TYPE_REINSERTION cfg")
  case NNS
  have c: "\<not> ((\<exists>p\<in>set (map (\<lambda>a. 1 + a) (to_list A)). graph_size_plus1 inp \<le> p) \<or>
         (\<exists>p\<in>set (map (\<lambda>p. p + half_pos inp) (map (\<lambda>a. 1 + a) (to_list A))). graph_size_plus1 inp \<le> p) \<or>
         batch_size inp = 1 \<or> graph_size_plus1 inp = 1)"
    using sel B n by (auto simp: graph_size_plus1_def half_pos_def)
  have b: "base_logits cfg inp A = nns_base inp A" using NNS by (simp add: base_logits_def)
  show ?thesis
    unfolding reinsertion_logits_NNS[OF NNS] b using c by (simp only: if_False)
next
  case Random
  then show ?thesis using reinsertion_logits_Random[OF Random] by (simp add: base_logits_def)
next
  case Greedy
  then show ?thesis using ng by simp
qed

lemma logit_row_ne:
  "b < batch_size inp \<Longrightarrow> logit_rows inp A base ! b \<noteq> []"
  using logit_rows_row_length[of b inp A base] by (auto simp: graph_size_plus1_def)

lemma sample_pair_index_less:
  assumes "b < batch_size inp"
  shows "sample_pair_index cfg inp A b < graph_size_plus1 inp * graph_size_plus1 inp"
proof -
  have "softmax (logit_rows inp A (base_logits cfg inp A) ! b) \<noteq> []"
    using logit_row_ne[OF assms] by simp
  from inverse_cdf_less[OF this] show ?thesis
    using logit_rows_row_length[OF assms] by (simp add: sample_pair_index_def)
qed

lemma forward_sampled_eq:
  assumes rem: "TYPE_REMOVAL cfg = NNS" and ng: "TYPE_REINSERTION cfg \<noteq> Greedy"
    and fx: "fixed_action inp = None"
    and B: "2 \<le> batch_size inp" and n: "2 \<le> n_pairs inp" and pa: "pre_action_ok inp"
  shows "NNSDecoder_forward cfg inp = Inr (sampled_result cfg inp)"
proof -
  let ?B = "batch_size inp" and ?m = "graph_size_plus1 inp"
  let ?A = "sampled_removal inp"
  let ?logits = "logit_rows inp ?A (base_logits cfg inp ?A)"
  let ?idx = "map (sample_pair_index cfg inp ?A) [0..<?B]"
  let ?ll1 = "map (\<lambda>b. if training inp
                          then log_softmax (removal_row inp b) ! sample_removal inp b else 0) [0..<?B]"
  let ?ll2 = "map (\<lambda>b. if training inp \<and> TYPE_REINSERTION cfg = NNS
                         then log_softmax (?logits ! b) ! sample_pair_index cfg inp ?A b else 0) [0..<?B]"
  have sr: "select_removal cfg inp = Inr (?A, ?ll1)"
    by (rule select_removal_NNS_sampled[OF rem fx B n pa])
  have sel: "\<forall>a\<in>set (to_list ?A). a < n_pairs inp"
    using sample_removal_less[OF n] by (auto simp: to_list_sampled_removal)
  have rl: "reinsertion_logits cfg inp ?A = Inr ?logits"
    by (rule reinsertion_logits_regular[OF ng B n sel])
  have mu: "multinomial (softmax (?logits ! b)) (u_reinsertion inp b) =
              Inr (sample_pair_index cfg inp ?A b)" if "b < ?B" for b
    using multinomial_softmax[OF logit_row_ne[OF that]] by (simp add: sample_pair_index_def)
  have sp: "select_pair_index cfg inp ?A ?logits = Inr ?idx"
    using fx ng mu by (simp add: select_pair_index_def Let_def collect_map_upt logit_rows_length)
  have nu: "numel ?A = ?B" by (simp add: numel_def sampled_removal_def)
  have aa: "assemble_action inp ?A ?idx =
              Inr (map (\<lambda>b. (sample_removal inp b, sample_pair_index cfg inp ?A b div ?m,
                              sample_pair_index cfg inp ?A b mod ?m)) [0..<?B])"
    using fx nu B by (simp add: assemble_action_def Let_def sampled_removal_def)
  have l2: "selected_log_ll_action2 cfg inp ?logits ?idx = Inr ?ll2"
  proof (cases "training inp \<and> TYPE_REINSERTION cfg = NNS")
    case True
    have "\<not> (\<exists>b\<in>set [0..<?B]. ?m * ?m \<le> ?idx ! b)"
      using sample_pair_index_less[of _ inp cfg ?A] by (auto simp: not_le)
    then show ?thesis using True by (simp add: selected_log_ll_action2_def Let_def)
  next
    case False
    have "replicate ?B (0::real) = map (\<lambda>b. 0) [0..<?B]" by (simp add: map_replicate_const)
    then show ?thesis using False by (auto simp: selected_log_ll_action2_def Let_def)
  qed
  have ll: "map (\<lambda>b. ?ll1 ! b + ?ll2 ! b) [0..<?B] =
            map (\<lambda>b. (if training inp
                        then log_softmax (removal_row inp b) ! sample_removal inp b else 0) +
                       (if training inp \<and> TYPE_REINSERTION cfg = NNS
                        then log_softmax (?logits ! b) ! sample_pair_index cfg inp ?A b else 0))
                [0..<?B]"
    by (rule map_cong[OF refl]) simp
  show ?thesis
    unfolding sampled_result_def Let_def forward_Inr
    using sr rl sp aa l2 ll
    by (intro exI[of _ ?A] exI[of _ ?ll1] exI[of _ ?logits] exI[of _ ?idx] exI[of _ ?ll2]) simp
qed



lemma softmax_const:
  assumes "i < length xs" "\<forall>x\<in>set xs. x = c"
  shows "softmax xs ! i = 1 / real (length xs)"
proof -
  have ne: "xs \<noteq> []" using assms(1) by auto
  have mx: "max_list xs = c" using max_list_in[OF ne] assms(2) by blast
  have "map (\<lambda>x. exp32 (x - max_list xs)) xs = map (\<lambda>x. 1) xs"
    by (rule map_cong[OF refl]) (use assms(2) mx in \<open>auto simp: exp32_0\<close>)
  then have "sum_list (map (\<lambda>x. exp32 (x - max_list xs)) xs) = sum_list (map (\<lambda>x. 1::real) xs)"
    by (simp only:)
  also have "\<dots> = real (length xs)" by (simp add: sum_list_triv)
  finally have s: "sum_list (map (\<lambda>x. exp32 (x - max_list xs)) xs) = real (length xs)" .
  have "xs ! i = c" using assms by simp
  then show ?thesis using assms(1) s mx by (simp add: softmax_nth exp32_0)
qed

lemma reseed_fields [simp]:
  "batch_size (reseed inp r u1 e1 u2 e2) = batch_size inp"
  "n_pairs (reseed inp r u1 e1 u2 e2) = n_pairs inp"
  "training (reseed inp r u1 e1 u2 e2) = training inp"
  "v_range (reseed inp r u1 e1 u2 e2) = v_range inp"
  "compater_removal (reseed inp r u1 e1 u2 e2) = compater_removal inp"
  "compater_reinsertion (reseed inp r u1 e1 u2 e2) = compater_reinsertion inp"
  "get_swap_mask (reseed inp r u1 e1 u2 e2) = get_swap_mask inp"
  "solution (reseed inp r u1 e1 u2 e2) = solution inp"
  "x_in (reseed inp r u1 e1 u2 e2) = x_in inp"
  "pre_action (reseed inp r u1 e1 u2 e2) = pre_action inp"
  "fixed_action (reseed inp r u1 e1 u2 e2) = fixed_action inp"
  "require_entropy (reseed inp r u1 e1 u2 e2) = require_entropy inp"
  by (simp_all add: reseed_def)

lemma reseed_graph [simp]:
  "graph_size_plus1 (reseed inp r u1 e1 u2 e2) = graph_size_plus1 inp"
  "half_pos (reseed inp r u1 e1 u2 e2) = half_pos inp"
  by (simp_all add: graph_size_plus1_def half_pos_def)

lemma reseed_table [simp]:
  "action_removal_table (reseed inp r u1 e1 u2 e2) = action_removal_table inp"
  by (simp add: action_removal_table_def)

lemma reseed_greedy_removal [simp]:
  "greedy_removal_row (reseed inp r u1 e1 u2 e2) = greedy_removal_row inp"
  by (rule ext) (simp add: greedy_removal_row_def)

lemma reseed_greedy_reinsertion [simp]:
  "greedy_reinsertion (reseed inp r u1 e1 u2 e2) = greedy_reinsertion inp"
  by (rule ext)+ (simp add: greedy_reinsertion_def)


lemma reseed_reinsertion_logits [simp]:
  "reinsertion_logits cfg (reseed inp r u1 e1 u2 e2) = reinsertion_logits cfg inp"
  by (rule ext) (simp add: reinsertion_logits_def action_reinsertion_table_def mask_table_def Let_def)


lemma reseed_assemble [simp]:
  "assemble_action (reseed inp r u1 e1 u2 e2) = assemble_action inp"
  by (rule ext)+ (simp add: assemble_action_def Let_def)

lemma reseed_ll2 [simp]:
  "selected_log_ll_action2 cfg (reseed inp r u1 e1 u2 e2) = selected_log_ll_action2 cfg inp"
  by (rule ext)+ (simp add: selected_log_ll_action2_def Let_def)


section \<open>The fixed action\<close>


section \<open>The step log-likelihood\<close>

text \<open>
  Claim C5, as the code has it.  The returned log-likelihood of every instance is the sum
  of two terms, each gated on its own: the removal decoder's log-softmax at the chosen
  pair if the removal policy is the trained one and the module is in training mode, else
  \<open>0\<close>; plus the reinsertion decoder's log-softmax at the chosen cell if the reinsertion
  policy is the trained one and the module is in training mode, else \<open>0\<close>.  So it is zero
  outside training and when both policies are non-trainable.
\<close>

theorem step_log_likelihood:
  assumes ok: "NNSDecoder_forward cfg inp = Inr (action, log_ll, ent)"
  shows "\<exists>A ll1 logits.
           select_removal cfg inp = Inr (A, ll1) \<and> reinsertion_logits cfg inp A = Inr logits \<and>
           to_list A = map fst action \<and> length log_ll = batch_size inp \<and>
           (\<forall>b<batch_size inp.
              log_ll ! b =
                (if training inp \<and> TYPE_REMOVAL cfg = NNS
                 then removal_log_prob inp b (fst (action ! b)) else 0) +
                (if training inp \<and> TYPE_REINSERTION cfg = NNS
                 then log_softmax (logits ! b) !
                        (fst (snd (action ! b)) * graph_size_plus1 inp + snd (snd (action ! b)))
                 else 0))"
  using forward_log_ll[OF ok] .


section \<open>The removal tabu\<close>


section \<open>A mask without a feasible cell\<close>

text \<open>
  Claim C3, as the code has it.  Under the trained removal policy and the trained or
  random reinsertion policy, with at least two instances and two request pairs and no
  \<open>fixed_action\<close>: if the mask marks every cell infeasible for an instance \<open>b0\<close>, the step
  raises no error.  All logits of \<open>b0\<close> are \<^verbatim>\<open>-1e20\<close>, its softmax is uniform
  (\<open>1/(2n+1)^2\<close> per cell), and the step returns an action whose cell for \<open>b0\<close> is marked
  infeasible.
\<close>

theorem all_masked_no_error:
  assumes rem: "TYPE_REMOVAL cfg = NNS" and ng: "TYPE_REINSERTION cfg \<noteq> Greedy"
    and fx: "fixed_action inp = None"
    and B: "2 \<le> batch_size inp" and n: "2 \<le> n_pairs inp" and pa: "pre_action_ok inp"
    and b0: "b0 < batch_size inp"
    and all: "\<forall>sel p d. get_swap_mask inp sel b0 p d"
  shows "\<exists>action log_ll ent A ll1 logits.
           NNSDecoder_forward cfg inp = Inr (action, log_ll, ent) \<and>
           select_removal cfg inp = Inr (A, ll1) \<and> reinsertion_logits cfg inp A = Inr logits \<and>
           (\<forall>i<graph_size_plus1 inp * graph_size_plus1 inp.
              logits ! b0 ! i = masked_logit \<and>
              softmax (logits ! b0) ! i = 1 / real (graph_size_plus1 inp * graph_size_plus1 inp)) \<and>
           fst (snd (action ! b0)) < graph_size_plus1 inp \<and>
           snd (snd (action ! b0)) < graph_size_plus1 inp \<and>
           get_swap_mask inp (map (\<lambda>t. fst t + 1) action) b0
             (fst (snd (action ! b0))) (snd (snd (action ! b0)))"
proof -
  let ?B = "batch_size inp" and ?m = "graph_size_plus1 inp"
  let ?A = "sampled_removal inp"
  let ?logits = "logit_rows inp ?A (base_logits cfg inp ?A)"
  obtain action log_ll ent where res: "sampled_result cfg inp = (action, log_ll, ent)"
    by (cases "sampled_result cfg inp") auto
  have fw: "NNSDecoder_forward cfg inp = Inr (action, log_ll, ent)"
    using forward_sampled_eq[OF rem ng fx B n pa] res by simp
  have sr: "select_removal cfg inp = Inr (?A, map (\<lambda>b. if training inp
                          then log_softmax (removal_row inp b) ! sample_removal inp b else 0)
                    [0..<?B])"
    by (rule select_removal_NNS_sampled[OF rem fx B n pa])
  have sel: "\<forall>a\<in>set (to_list ?A). a < n_pairs inp"
    using sample_removal_less[OF n] by (auto simp: to_list_sampled_removal)
  have rl: "reinsertion_logits cfg inp ?A = Inr ?logits"
    by (rule reinsertion_logits_regular[OF ng B n sel])
  have rowlen: "length (?logits ! b0) = ?m * ?m" by (rule logit_rows_row_length[OF b0])
  have cell: "?logits ! b0 ! i = masked_logit" if "i < ?m * ?m" for i
    using all that b0 by (simp add: logit_rows_def mask_table_def)
  have allm: "\<forall>x\<in>set (?logits ! b0). x = masked_logit"
    using cell rowlen by (auto simp: in_set_conv_nth)
  have uni: "softmax (?logits ! b0) ! i = 1 / real (?m * ?m)" if "i < ?m * ?m" for i
    using softmax_const[OF _ allm, of i] that rowlen by simp
  have act: "action ! b0 = (sample_removal inp b0, sample_pair_index cfg inp ?A b0 div ?m,
                            sample_pair_index cfg inp ?A b0 mod ?m)"
    using res b0 by (auto simp: sampled_result_def Let_def)
  have lt: "sample_pair_index cfg inp ?A b0 < ?m * ?m" by (rule sample_pair_index_less[OF b0])
  have pd: "fst (snd (action ! b0)) < ?m" "snd (snd (action ! b0)) < ?m"
    using act index_cell(1,2)[OF lt] by simp_all
  show ?thesis
    using fw sr rl cell uni pd all
    by (intro exI[of _ action] exI[of _ log_ll] exI[of _ ent] exI[of _ ?A] exI[of _ ?logits] exI
        conjI) (assumption | simp)+
qed

lemma forward_greedy_reinsertion_asserts:
  assumes "TYPE_REINSERTION cfg = Greedy" "TYPE_REMOVAL cfg \<noteq> Greedy"
    "select_removal cfg inp = Inr r"
  shows "NNSDecoder_forward cfg inp = Inl AssertionError"
  using assms
  by (cases r) (simp add: NNSDecoder_forward_def reinsertion_logits_def action_reinsertion_table_def
      Let_def)

lemma forward_batch1_raises:
  assumes "batch_size inp = 1" "TYPE_REINSERTION cfg = NNS"
  shows "\<exists>e. NNSDecoder_forward cfg inp = Inl e"
proof (cases "select_removal cfg inp")
  case (Inl e)
  then show ?thesis by (simp add: NNSDecoder_forward_def)
next
  case (Inr r)
  obtain A ll1 where r: "r = (A, ll1)" by (cases r)
  have "reinsertion_logits cfg inp A = Inl IndexError"
    unfolding reinsertion_logits_NNS[OF assms(2)] using assms(1) by simp
  then show ?thesis using Inr r by (simp add: NNSDecoder_forward_def)
qed

lemma ex_graph:
  "n_pairs inp = 2 \<Longrightarrow> graph_size_plus1 inp = 5"
  by (simp add: graph_size_plus1_def)

lemma softmax_00: "softmax [0, 0] = [1 / 2, 1 / 2]"
  by (simp add: softmax_def max_list_def exp32_def)

lemma log_softmax_00: "log_softmax [0, 0] = [- ln 2, - ln 2]"
  by (simp add: log_softmax_def max_list_def exp32_def)


lemma softmax_sole_row:
  "x = 0 \<or> x = 1 \<Longrightarrow> softmax (sole_row x) =
   [0, 0, 0, 0, 0, 0, 0, 0, 0, 0, 0, 0, 0, 0, 0, 0, 0, 0, 0, 1, 0, 0, 0, 0, 0]"
  by (auto simp: sole_row_def softmax_def max_list_def exp32_def masked_logit_def)

lemma log_softmax_sole_row: "log_softmax (sole_row 0) ! 19 = 0"
  by (simp add: sole_row_def log_softmax_def max_list_def exp32_def masked_logit_def)

lemma sole_rows:
  assumes "batch_size inp = 2" "n_pairs inp = 2"
    "get_swap_mask inp = (\<lambda>sel b p d. \<not> (p = 3 \<and> d = 4))"
    "compater_reinsertion inp = (\<lambda>pos b p d. 0)"
  shows "logit_rows inp A (base_logits cfg inp A) =
           (if TYPE_REINSERTION cfg = NNS then [sole_row 0, sole_row 0]
            else [sole_row 1, sole_row 1])"
  using assms
  by (simp add: logit_rows_def base_logits_def nns_base_def mask_table_def upt_rec sole_row_def
      ex_graph)

lemma sole_sample_pair:
  assumes "batch_size inp = 2" "n_pairs inp = 2"
    "get_swap_mask inp = (\<lambda>sel b p d. \<not> (p = 3 \<and> d = 4))"
    "compater_reinsertion inp = (\<lambda>pos b p d. 0)" "u_reinsertion inp = (\<lambda>b. 0)" "b < 2"
  shows "sample_pair_index cfg inp A b = 19"
  using less_2_cases[OF assms(6)] assms(5)
  by (auto simp: sample_pair_index_def sole_rows[OF assms(1-4)] softmax_sole_row)

lemma upt_2: "[0..<2] = [0, 1]"
  by (simp add: upt_rec)

lemma masked_rows:
  assumes "batch_size inp = 2" "n_pairs inp = 2" "get_swap_mask inp = (\<lambda>sel b p d. True)"
  shows "logit_rows inp A base = [replicate 25 masked_logit, replicate 25 masked_logit]"
proof -
  have "logit_rows inp A base = map (\<lambda>b. replicate 25 masked_logit) [0..<2]"
    using assms by (simp add: logit_rows_def mask_table_def ex_graph map_replicate_const)
  then show ?thesis by (simp only: upt_2 list.map)
qed

lemma softmax_masked_row:
  "softmax (replicate 25 masked_logit) = replicate 25 (1 / 25)"
proof (rule nth_equalityI)
  show "length (softmax (replicate 25 masked_logit)) = length (replicate 25 (1 / 25 :: real))"
    by simp
next
  fix i assume "i < length (softmax (replicate 25 masked_logit))"
  then have i: "i < 25" by simp
  then have "softmax (replicate 25 masked_logit) ! i = 1 / 25"
    using softmax_const[of i "replicate 25 masked_logit" masked_logit] by simp
  then show "softmax (replicate 25 masked_logit) ! i = replicate 25 (1 / 25) ! i" using i by simp
qed

lemma inverse_cdf_replicate: "0 < n \<Longrightarrow> 0 < p \<Longrightarrow> inverse_cdf (replicate n p) 0 = 0"
  by (cases n) auto

lemma masked_sample_pair:
  assumes "batch_size inp = 2" "n_pairs inp = 2" "get_swap_mask inp = (\<lambda>sel b p d. True)"
    "u_reinsertion inp = (\<lambda>b. 0)" "b < 2"
  shows "sample_pair_index cfg inp A b = 0"
  using less_2_cases[OF assms(5)] assms(4)
  by (auto simp: sample_pair_index_def masked_rows[OF assms(1-3)] softmax_masked_row
      inverse_cdf_replicate)

lemma zero_removal_row:
  assumes "n_pairs inp = 2" "compater_removal inp = (\<lambda>b k. 0)"
    "pre_action inp = None \<or> (\<exists>prev. pre_action inp = Some prev \<and> fst (prev 0) = 0)"
  shows "removal_row inp b = [0, 0]"
  using assms by (auto simp: removal_row_def upt_rec)

lemma ex_forward:
  "NNSDecoder_forward ex_cfg ex_input = Inr ([(0, 3, 4), (0, 3, 4)], [0, 0], None)"
proof -
  have f: "batch_size ex_input = 2" "n_pairs ex_input = 2"
    "get_swap_mask ex_input = (\<lambda>sel b p d. \<not> (p = 3 \<and> d = 4))"
    "compater_reinsertion ex_input = (\<lambda>pos b p d. 0)" "u_reinsertion ex_input = (\<lambda>b. 0)"
    by (simp_all add: ex_input_def)
  have r: "sample_removal ex_input b = 0" for b
    using zero_removal_row[of ex_input b]
    by (simp add: sample_removal_def softmax_00 ex_input_def)
  have "NNSDecoder_forward ex_cfg ex_input = Inr (sampled_result ex_cfg ex_input)"
    by (rule forward_sampled_eq) (simp_all add: pre_action_ok_def ex_input_def ex_cfg_def)
  moreover have "sampled_result ex_cfg ex_input = ([(0, 3, 4), (0, 3, 4)], [0, 0], None)"
    using sole_sample_pair[OF f]
    by (simp add: sampled_result_def Let_def r upt_rec ex_graph f) (simp add: ex_input_def)
  ultimately show ?thesis by simp
qed



lemma inverse_cdf_halves: "inverse_cdf [1 / 2, 1 / 2] 0 = 0" "inverse_cdf [1 / 2, 1 / 2] (3 / 4) = 1"
  by simp_all

lemma sole_result:
  assumes f: "batch_size inp = 2" "n_pairs inp = 2"
    "get_swap_mask inp = (\<lambda>sel b p d. \<not> (p = 3 \<and> d = 4))"
    "compater_reinsertion inp = (\<lambda>pos b p d. 0)" "u_reinsertion inp = (\<lambda>b. 0)"
    and rem: "TYPE_REMOVAL cfg = NNS" and ng: "TYPE_REINSERTION cfg \<noteq> Greedy"
    and fx: "fixed_action inp = None" and pa: "pre_action_ok inp"
    and r: "\<And>b. sample_removal inp b = a"
  shows "NNSDecoder_forward cfg inp =
           Inr ([(a, 3, 4), (a, 3, 4)],
                map (\<lambda>b. (if training inp then log_softmax (removal_row inp b) ! a else 0) +
                           (if training inp \<and> TYPE_REINSERTION cfg = NNS
                            then log_softmax (sole_row 0) ! 19 else 0)) [0, 1],
                if require_entropy inp \<and> training inp
                then Some (map (\<lambda>l. entropy_of (softmax l))
                             (if TYPE_REINSERTION cfg = NNS then [sole_row 0, sole_row 0]
                              else [sole_row 1, sole_row 1]))
                else None)"
proof -
  have "NNSDecoder_forward cfg inp = Inr (sampled_result cfg inp)"
    by (rule forward_sampled_eq[OF rem ng fx _ _ pa]) (simp_all add: f)
  moreover have "sampled_result cfg inp =
           ([(a, 3, 4), (a, 3, 4)],
                map (\<lambda>b. (if training inp then log_softmax (removal_row inp b) ! a else 0) +
                           (if training inp \<and> TYPE_REINSERTION cfg = NNS
                            then log_softmax (sole_row 0) ! 19 else 0)) [0, 1],
                if require_entropy inp \<and> training inp
                then Some (map (\<lambda>l. entropy_of (softmax l))
                             (if TYPE_REINSERTION cfg = NNS then [sole_row 0, sole_row 0]
                              else [sole_row 1, sole_row 1]))
                else None)"
    using sole_sample_pair[OF f]
    by (simp add: sampled_result_def Let_def r upt_2 ex_graph f sole_rows[OF f(1-4)])
  ultimately show ?thesis by simp
qed





lemma ex_train_row: "removal_row ex_train b = [0, 0]"
  by (simp add: removal_row_def ex_train_def ex_input_def upt_rec)

lemma ex_train_forward:
  assumes "cfg = ex_cfg \<or> cfg = ex_cfg_random"
  shows "NNSDecoder_forward cfg ex_train = Inr ([(0, 3, 4), (0, 3, 4)], [- ln 2, - ln 2], None)"
proof -
  have r: "sample_removal ex_train b = 0" for b
    by (simp add: sample_removal_def ex_train_row softmax_00) (simp add: ex_train_def ex_input_def)
  have "NNSDecoder_forward cfg ex_train =
           Inr ([(0, 3, 4), (0, 3, 4)],
                map (\<lambda>b. (if training ex_train then log_softmax (removal_row ex_train b) ! 0 else 0) +
                           (if training ex_train \<and> TYPE_REINSERTION cfg = NNS
                            then log_softmax (sole_row 0) ! 19 else 0)) [0, 1],
                if require_entropy ex_train \<and> training ex_train
                then Some (map (\<lambda>l. entropy_of (softmax l))
                             (if TYPE_REINSERTION cfg = NNS then [sole_row 0, sole_row 0]
                              else [sole_row 1, sole_row 1]))
                else None)"
    using assms
    by (intro sole_result[OF _ _ _ _ _ _ _ _ _ r])
       (auto simp: ex_train_def ex_input_def ex_cfg_def ex_cfg_random_def pre_action_ok_def)
  then show ?thesis
    by (simp add: ex_train_row log_softmax_00 log_softmax_sole_row) (simp add: ex_train_def ex_input_def)
qed

lemma ex_all_masked_forward:
  "NNSDecoder_forward ex_cfg ex_all_masked = Inr ([(0, 0, 0), (0, 0, 0)], [0, 0], None)"
proof -
  have f: "batch_size ex_all_masked = 2" "n_pairs ex_all_masked = 2"
    "get_swap_mask ex_all_masked = (\<lambda>sel b p d. True)" "u_reinsertion ex_all_masked = (\<lambda>b. 0)"
    by (simp_all add: ex_all_masked_def ex_input_def)
  have r: "sample_removal ex_all_masked b = 0" for b
    using zero_removal_row[of ex_all_masked b]
    by (simp add: sample_removal_def softmax_00 ex_all_masked_def ex_input_def)
  have "NNSDecoder_forward ex_cfg ex_all_masked = Inr (sampled_result ex_cfg ex_all_masked)"
    by (rule forward_sampled_eq)
       (simp_all add: pre_action_ok_def ex_all_masked_def ex_input_def ex_cfg_def)
  moreover have "sampled_result ex_cfg ex_all_masked = ([(0, 0, 0), (0, 0, 0)], [0, 0], None)"
    using masked_sample_pair[OF f]
    by (simp add: sampled_result_def Let_def r upt_2 ex_graph f)
       (simp add: ex_all_masked_def ex_input_def)
  ultimately show ?thesis by simp
qed




text \<open>The theorem at \<open>ex_all_masked\<close> and instance \<open>0\<close>.\<close>

theorem all_masked_no_error_witness:
  "TYPE_REMOVAL ex_cfg = NNS \<and> TYPE_REINSERTION ex_cfg \<noteq> Greedy \<and>
   fixed_action ex_all_masked = None \<and> 2 \<le> batch_size ex_all_masked \<and>
   2 \<le> n_pairs ex_all_masked \<and> pre_action_ok ex_all_masked \<and>
   (\<forall>sel p d. get_swap_mask ex_all_masked sel 0 p d) \<and>
   (\<exists>action log_ll ent A ll1 logits.
      NNSDecoder_forward ex_cfg ex_all_masked = Inr (action, log_ll, ent) \<and>
      select_removal ex_cfg ex_all_masked = Inr (A, ll1) \<and>
      reinsertion_logits ex_cfg ex_all_masked A = Inr logits \<and>
      logits ! 0 ! 7 = masked_logit \<and> softmax (logits ! 0) ! 7 = 1 / 25 \<and>
      fst (snd (action ! 0)) < 5 \<and> snd (snd (action ! 0)) < 5 \<and>
      get_swap_mask ex_all_masked (map (\<lambda>t. fst t + 1) action) 0
        (fst (snd (action ! 0))) (snd (snd (action ! 0))))"
proof -
  have rem: "TYPE_REMOVAL ex_cfg = NNS" and ng: "TYPE_REINSERTION ex_cfg \<noteq> Greedy"
    by (simp_all add: ex_cfg_def)
  have fx: "fixed_action ex_all_masked = None" and B: "2 \<le> batch_size ex_all_masked"
    and n: "2 \<le> n_pairs ex_all_masked" and pa: "pre_action_ok ex_all_masked"
    and b0: "0 < batch_size ex_all_masked"
    and all: "\<forall>sel p d. get_swap_mask ex_all_masked sel 0 p d"
    by (simp_all add: ex_all_masked_def ex_input_def pre_action_ok_def)
  have g: "graph_size_plus1 ex_all_masked = 5"
    by (rule ex_graph) (simp add: ex_all_masked_def ex_input_def)
  from all_masked_no_error[OF rem ng fx B n pa b0 all] obtain action log_ll ent A ll1 logits where
    fw: "NNSDecoder_forward ex_cfg ex_all_masked = Inr (action, log_ll, ent)"
    and sr: "select_removal ex_cfg ex_all_masked = Inr (A, ll1)"
    and rl: "reinsertion_logits ex_cfg ex_all_masked A = Inr logits"
    and un: "\<forall>i<graph_size_plus1 ex_all_masked * graph_size_plus1 ex_all_masked.
              logits ! 0 ! i = masked_logit \<and>
              softmax (logits ! 0) ! i =
                1 / real (graph_size_plus1 ex_all_masked * graph_size_plus1 ex_all_masked)"
    and pd: "fst (snd (action ! 0)) < graph_size_plus1 ex_all_masked"
      "snd (snd (action ! 0)) < graph_size_plus1 ex_all_masked"
    and inf: "get_swap_mask ex_all_masked (map (\<lambda>t. fst t + 1) action) 0
             (fst (snd (action ! 0))) (snd (snd (action ! 0)))"
    by blast
  have u7: "logits ! 0 ! 7 = masked_logit \<and> softmax (logits ! 0) ! 7 = 1 / 25"
    using un[rule_format, of 7] by (simp add: g)
  have c: "\<exists>action log_ll ent A ll1 logits.
      NNSDecoder_forward ex_cfg ex_all_masked = Inr (action, log_ll, ent) \<and>
      select_removal ex_cfg ex_all_masked = Inr (A, ll1) \<and>
      reinsertion_logits ex_cfg ex_all_masked A = Inr logits \<and>
      logits ! 0 ! 7 = masked_logit \<and> softmax (logits ! 0) ! 7 = 1 / 25 \<and>
      fst (snd (action ! 0)) < 5 \<and> snd (snd (action ! 0)) < 5 \<and>
      get_swap_mask ex_all_masked (map (\<lambda>t. fst t + 1) action) 0
        (fst (snd (action ! 0))) (snd (snd (action ! 0)))"
    using fw sr rl u7 pd inf unfolding g by blast
  show ?thesis using rem ng fx B n pa all c by blast
qed

text \<open>
  The claim as stated (the decoder raises) fails on \<open>ex_all_masked\<close>: the step returns
  the action \<open>(0, 0, 0)\<close> for both instances and is not an error.
\<close>

theorem all_masked_raises_counterexample:
  "(\<forall>sel b p d. get_swap_mask ex_all_masked sel b p d) \<and>
   NNSDecoder_forward ex_cfg ex_all_masked = Inr ([(0, 0, 0), (0, 0, 0)], [0, 0], None) \<and>
   \<not> isl (NNSDecoder_forward ex_cfg ex_all_masked)"
  using ex_all_masked_forward by (simp add: ex_all_masked_def)




text \<open>The theorem at \<open>ex_train\<close> with both policies trained.\<close>

theorem step_log_likelihood_witness:
  "NNSDecoder_forward ex_cfg ex_train = Inr ([(0, 3, 4), (0, 3, 4)], [- ln 2, - ln 2], None) \<and>
   (\<exists>A ll1 logits.
      select_removal ex_cfg ex_train = Inr (A, ll1) \<and>
      reinsertion_logits ex_cfg ex_train A = Inr logits \<and>
      [- ln 2, - ln 2] ! 1 =
        removal_log_prob ex_train 1 0 + log_softmax (logits ! 1) ! (3 * 5 + 4))"
proof -
  have fw: "NNSDecoder_forward ex_cfg ex_train = Inr ([(0, 3, 4), (0, 3, 4)], [- ln 2, - ln 2], None)"
    by (rule ex_train_forward) simp
  have f: "batch_size ex_train = 2" "training ex_train" "graph_size_plus1 ex_train = 5"
    by (simp_all add: ex_train_def ex_input_def graph_size_plus1_def)
  have c: "TYPE_REMOVAL ex_cfg = NNS" "TYPE_REINSERTION ex_cfg = NNS" by (simp_all add: ex_cfg_def)
  from step_log_likelihood[OF fw] obtain A ll1 logits where
    sr: "select_removal ex_cfg ex_train = Inr (A, ll1)"
    and rl: "reinsertion_logits ex_cfg ex_train A = Inr logits"
    and ll: "\<forall>b<batch_size ex_train.
              [- ln 2, - ln 2] ! b =
                (if training ex_train \<and> TYPE_REMOVAL ex_cfg = NNS
                 then removal_log_prob ex_train b (fst ([(0::nat, 3::nat, 4::nat), (0, 3, 4)] ! b)) else 0) +
                (if training ex_train \<and> TYPE_REINSERTION ex_cfg = NNS
                 then log_softmax (logits ! b) !
                        (fst (snd ([(0::nat, 3::nat, 4::nat), (0, 3, 4)] ! b)) * graph_size_plus1 ex_train +
                         snd (snd ([(0::nat, 3::nat, 4::nat), (0, 3, 4)] ! b)))
                 else 0)"
    by blast
  have "[- ln 2, - ln 2] ! 1 =
        removal_log_prob ex_train 1 0 + log_softmax (logits ! 1) ! (3 * 5 + 4)"
    using ll[rule_format, of 1] by (simp add: f c)
  then show ?thesis using fw sr rl by blast
qed

text \<open>
  The claim as stated (zero on any path that uses a non-trainable policy) fails with the
  trained removal and the random reinsertion policy in training mode: the
  log-likelihood is the removal term \<open>- ln 2\<close>.
\<close>

theorem step_log_likelihood_counterexample:
  "TYPE_REMOVAL ex_cfg_random = NNS \<and> TYPE_REINSERTION ex_cfg_random = Random \<and>
   training ex_train \<and>
   NNSDecoder_forward ex_cfg_random ex_train =
     Inr ([(0, 3, 4), (0, 3, 4)], [- ln 2, - ln 2], None) \<and>
   - ln 2 \<noteq> (0::real)"
proof -
  have "NNSDecoder_forward ex_cfg_random ex_train =
     Inr ([(0, 3, 4), (0, 3, 4)], [- ln 2, - ln 2], None)"
    by (rule ex_train_forward) simp
  then show ?thesis by (simp add: ex_cfg_random_def ex_train_def)
qed

section \<open>Policy combinations\<close>

text \<open>
  Claim C6 does not hold of the code: with the trained removal policy and the greedy
  reinsertion policy the branch of line 659 tests \<open>TYPE_REMOVAL\<close>, no table is built and
  the step stops at \<^verbatim>\<open>assert False\<close>; the same input completes under the trained
  reinsertion policy.
\<close>

theorem greedy_reinsertion_with_trained_removal_fails:
  "TYPE_REMOVAL ex_cfg_greedy = NNS \<and> TYPE_REINSERTION ex_cfg_greedy = Greedy \<and>
   NNSDecoder_forward ex_cfg_greedy ex_input = Inl AssertionError \<and>
   NNSDecoder_forward ex_cfg ex_input = Inr ([(0, 3, 4), (0, 3, 4)], [0, 0], None)"
proof -
  have c: "TYPE_REMOVAL ex_cfg_greedy = NNS" "TYPE_REINSERTION ex_cfg_greedy = Greedy"
    by (simp_all add: ex_cfg_greedy_def)
  have "select_removal ex_cfg_greedy ex_input =
           Inr (sampled_removal ex_input,
                map (\<lambda>b. if training ex_input
                          then log_softmax (removal_row ex_input b) ! sample_removal ex_input b else 0)
                    [0..<batch_size ex_input])"
    by (rule select_removal_NNS_sampled[OF c(1)]) (simp_all add: ex_input_def pre_action_ok_def)
  then have "NNSDecoder_forward ex_cfg_greedy ex_input = Inl AssertionError"
    by (intro forward_greedy_reinsertion_asserts[OF c(2)]) (simp_all add: c)
  then show ?thesis using c ex_forward by simp
qed

section \<open>Batch size one\<close>

text \<open>
  Claim C10 does not hold of the code: for a single instance \<^verbatim>\<open>.squeeze()\<close> drops the
  batch dimension.  The removal table has shape \<open>(n)\<close> and the reinsertion table
  \<open>(2n+1, 2n+1)\<close>, and the step raises \<open>IndexError\<close> at the masked assignment of line 719.
\<close>

theorem singleton_batch_loses_dimension:
  "batch_size ex_batch1 = 1 \<and> n_pairs ex_batch1 = 2 \<and>
   shape (squeeze (squeeze (tensor2 1 2 (compater_removal ex_batch1)))) = [2] \<and>
   shape (squeeze (tensor3 1 5 5 (compater_reinsertion ex_batch1 [1]))) = [5, 5] \<and>
   (\<exists>table. action_removal_table ex_batch1 = Inr table \<and> shape table = [2]) \<and>
   NNSDecoder_forward ex_cfg ex_batch1 = Inl IndexError"
proof -
  have f: "batch_size ex_batch1 = 1" "n_pairs ex_batch1 = 2" "pre_action ex_batch1 = None"
    "fixed_action ex_batch1 = None" "training ex_batch1 = False"
    by (simp_all add: ex_batch1_def ex_input_def)
  have c: "TYPE_REMOVAL ex_cfg = NNS" "TYPE_REINSERTION ex_cfg = NNS" by (simp_all add: ex_cfg_def)
  have s2: "shape (squeeze (squeeze (tensor2 1 2 (compater_removal ex_batch1)))) = [2]"
    by (simp add: shape_squeeze2)
  have s3: "shape (squeeze (tensor3 1 5 5 (compater_reinsertion ex_batch1 [1]))) = [5, 5]"
    by (simp add: squeeze_shape tensor3_def)
  obtain table where tab: "action_removal_table ex_batch1 = Inr table"
    using f by (simp add: action_removal_table_def Let_def)
  have sh: "shape table = [2]" using action_removal_table_shape[OF tab] f by simp
  have "\<exists>x. multinomial (row_at (along_last softmax table) 2 0) (u_removal ex_batch1 0) = Inr x"
  proof -
    have "row_at (along_last softmax table) 2 0 = softmax (row_at table 2 0)"
      by (rule row_at_along_last) (simp_all add: sh)
    moreover have "row_at table 2 0 \<noteq> []" by (simp add: row_at_def upt_rec)
    ultimately show ?thesis using multinomial_softmax by simp
  qed
  then obtain x where "multinomial (row_at (along_last softmax table) 2 0) (u_removal ex_batch1 0) = Inr x"
    by blast
  then have "\<exists>r. select_removal ex_cfg ex_batch1 = Inr r"
    using tab sh f c by (simp add: select_removal_def Let_def multinomial_t_def)
  then obtain A ll1 where sr: "select_removal ex_cfg ex_batch1 = Inr (A, ll1)" by auto
  have "reinsertion_logits ex_cfg ex_batch1 A = Inl IndexError"
    unfolding reinsertion_logits_NNS[OF c(2)] using f by simp
  then have fw: "NNSDecoder_forward ex_cfg ex_batch1 = Inl IndexError"
    using sr by (simp add: NNSDecoder_forward_def)
  show ?thesis using f s2 s3 tab sh fw by blast
qed

end
